theory Spec2Isabelle
  imports Main "HOL-Library.Word"
begin

unbundle bit_operations_syntax

section \<open>Memory of the host process\<close>

text \<open>
  Pointers and \<open>size_t\<close> are 64-bit words (the allocator is written for LP64:
  \<open>unsigned long int\<close> holds an address), boundary tags and list links are 32-bit
  \<open>unsigned int\<close>, memory is an array of bytes.

  Modelled from the spec: memlib, the host side of the allocator, is not part of the
  repository.  The spec speaks of a single contiguous, growable region of memory
  (section 1) whose base is fixed and which only grows upward (section 4.2), and of
  the blocks as regions of one arena (section 9).  The model gives the region the base
  \<open>mem_heap\<close>, the break \<open>mem_brk\<close> and the bound \<open>mem_max_addr\<close> up to which the
  host lets it grow.  The bytes from \<open>mem_heap\<close> to \<open>mem_max_addr\<close> are the arena,
  memory of the process from the start, inside which \<open>mem_sbrk\<close> only moves the
  break: a read or a write anywhere in the arena succeeds, also above the break, where
  it finds whatever bytes are there.  An access outside the arena is undefined
  behaviour in C; the model makes it the error value \<open>SegFault\<close>.
\<close>

type_synonym addr = "64 word"
type_synonym word32 = "32 word"
type_synonym byte = "8 word"

datatype error = SegFault

type_synonym 'a res = "error + 'a"

definition bind_res :: "'a res \<Rightarrow> ('a \<Rightarrow> 'b res) \<Rightarrow> 'b res" where
  "bind_res r f = (case r of Inl e \<Rightarrow> Inl e | Inr x \<Rightarrow> f x)"

record heap_state =
  mem :: "addr \<Rightarrow> byte"
  mem_heap :: addr
  mem_brk :: addr
  mem_max_addr :: addr
  heap_listp :: addr
  first_free :: addr

definition in_heap :: "heap_state \<Rightarrow> addr \<Rightarrow> nat \<Rightarrow> bool" where
  "in_heap s p n = (unat (mem_heap s) \<le> unat p \<and> unat p + n \<le> unat (mem_max_addr s))"

definition le32 :: "byte \<Rightarrow> byte \<Rightarrow> byte \<Rightarrow> byte \<Rightarrow> word32" where
  "le32 b0 b1 b2 b3 =
     ucast b0 OR push_bit 8 (ucast b1) OR push_bit 16 (ucast b2) OR push_bit 24 (ucast b3)"

definition load32 :: "(addr \<Rightarrow> byte) \<Rightarrow> addr \<Rightarrow> word32" where
  "load32 m p = le32 (m p) (m (p + 1)) (m (p + 2)) (m (p + 3))"

definition store32 :: "(addr \<Rightarrow> byte) \<Rightarrow> addr \<Rightarrow> word32 \<Rightarrow> (addr \<Rightarrow> byte)" where
  "store32 m p v =
     m(p := ucast v, p + 1 := ucast (drop_bit 8 v),
       p + 2 := ucast (drop_bit 16 v), p + 3 := ucast (drop_bit 24 v))"

text \<open>\<open>GET(p)\<close> is \<open>*(unsigned int *)(p)\<close>, little-endian.\<close>

definition GET :: "heap_state \<Rightarrow> addr \<Rightarrow> word32 res" where
  "GET s p = (if in_heap s p 4 then Inr (load32 (mem s) p) else Inl SegFault)"

text \<open>\<open>PUT(p, val)\<close> is \<open>*(unsigned int *)(p) = (val)\<close>.\<close>

definition PUT :: "heap_state \<Rightarrow> addr \<Rightarrow> word32 \<Rightarrow> heap_state res" where
  "PUT s p v = (if in_heap s p 4 then Inr (s\<lparr>mem := store32 (mem s) p v\<rparr>) else Inl SegFault)"

text \<open>
  Modelled from the spec: \<open>mem_sbrk\<close> of memlib, the host's growth primitive, is not
  part of the repository.  The spec (section 6) gives its contract: extend the heap
  region by N bytes, returning the previous end address (the start of the newly
  available region) or a failure sentinel if the host cannot grow it further.  The
  failure sentinel is \<open>(void *)-1\<close>, which is what \<open>mm_init\<close> and \<open>extend_heap\<close>
  compare the result with.
\<close>

definition mem_sbrk :: "heap_state \<Rightarrow> addr \<Rightarrow> addr \<times> heap_state" where
  "mem_sbrk s incr =
     (if unat (mem_brk s) + unat incr \<le> unat (mem_max_addr s)
      then (mem_brk s, s\<lparr>mem_brk := mem_brk s + incr\<rparr>)
      else (- 1, s))"

text \<open>\<open>memcpy\<close> and \<open>memset\<close> of the C library, on the same memory.\<close>

definition memcpy :: "heap_state \<Rightarrow> addr \<Rightarrow> addr \<Rightarrow> addr \<Rightarrow> heap_state res" where
  "memcpy s dst src n =
     (if n = 0 then Inr s
      else if in_heap s dst (unat n) \<and> in_heap s src (unat n)
      then Inr (s\<lparr>mem := (\<lambda>a. if a - dst < n then mem s (src + (a - dst)) else mem s a)\<rparr>)
      else Inl SegFault)"

definition memset :: "heap_state \<Rightarrow> addr \<Rightarrow> byte \<Rightarrow> addr \<Rightarrow> heap_state res" where
  "memset s dst c n =
     (if n = 0 then Inr s
      else if in_heap s dst (unat n)
      then Inr (s\<lparr>mem := (\<lambda>a. if a - dst < n then c else mem s a)\<rparr>)
      else Inl SegFault)"

section \<open>The macros of mm.c\<close>

abbreviation WSIZE :: addr where "WSIZE \<equiv> 4"
abbreviation DSIZE :: addr where "DSIZE \<equiv> 8"
abbreviation CHUNKSIZE :: addr where "CHUNKSIZE \<equiv> 512"
abbreviation MINBLKSIZE :: addr where "MINBLKSIZE \<equiv> 16"

definition PACK :: "addr \<Rightarrow> addr \<Rightarrow> word32" where
  "PACK sz alloc = ucast (sz OR alloc)"

definition GET_SIZE :: "heap_state \<Rightarrow> addr \<Rightarrow> word32 res" where
  "GET_SIZE s p = bind_res (GET s p) (\<lambda>w. Inr (w AND NOT 7))"

definition GET_ALLOC :: "heap_state \<Rightarrow> addr \<Rightarrow> word32 res" where
  "GET_ALLOC s p = bind_res (GET s p) (\<lambda>w. Inr (w AND 1))"

definition HDRP :: "addr \<Rightarrow> addr" where
  "HDRP bp = bp - WSIZE"

definition FTRP :: "heap_state \<Rightarrow> addr \<Rightarrow> addr res" where
  "FTRP s bp = bind_res (GET_SIZE s (HDRP bp)) (\<lambda>n. Inr (bp + ucast n - DSIZE))"

definition NEXT_BLKP :: "heap_state \<Rightarrow> addr \<Rightarrow> addr res" where
  "NEXT_BLKP s bp = bind_res (GET_SIZE s (bp - WSIZE)) (\<lambda>n. Inr (bp + ucast n))"

definition PREV_BLKP :: "heap_state \<Rightarrow> addr \<Rightarrow> addr res" where
  "PREV_BLKP s bp = bind_res (GET_SIZE s (bp - DSIZE)) (\<lambda>n. Inr (bp - ucast n))"

definition COMP_ADDRESS :: "heap_state \<Rightarrow> word32 \<Rightarrow> addr" where
  "COMP_ADDRESS s off = heap_listp s + ucast off"

text \<open>
  \<open>COMP_OFFSET(address)\<close> has no outer parentheses, so the \<open>(unsigned int)\<close> cast that
  \<open>SET_PRED\<close> and \<open>SET_SUCC\<close> put in front of it binds to the address alone; the
  difference is then truncated by the store into the 4-byte field.
\<close>

definition SET_OFFSET :: "heap_state \<Rightarrow> addr \<Rightarrow> word32" where
  "SET_OFFSET s val = ucast ((ucast (ucast val :: word32) :: addr) - heap_listp s)"

definition GET_PRED :: "heap_state \<Rightarrow> addr \<Rightarrow> addr res" where
  "GET_PRED s bp = bind_res (GET s bp) (\<lambda>w. Inr (COMP_ADDRESS s w))"

definition GET_SUCC :: "heap_state \<Rightarrow> addr \<Rightarrow> addr res" where
  "GET_SUCC s bp = bind_res (GET s (bp + WSIZE)) (\<lambda>w. Inr (COMP_ADDRESS s w))"

definition SET_PRED :: "heap_state \<Rightarrow> addr \<Rightarrow> addr \<Rightarrow> heap_state res" where
  "SET_PRED s bp val = PUT s bp (SET_OFFSET s val)"

definition SET_SUCC :: "heap_state \<Rightarrow> addr \<Rightarrow> addr \<Rightarrow> heap_state res" where
  "SET_SUCC s bp val = PUT s (bp + WSIZE) (SET_OFFSET s val)"

section \<open>The free list and the coalescing engine\<close>

definition freelist_add :: "heap_state \<Rightarrow> addr \<Rightarrow> heap_state res" where
  "freelist_add s bp =
     bind_res (SET_PRED s bp (heap_listp s)) (\<lambda>s1.
     bind_res (SET_SUCC s1 bp (first_free s1)) (\<lambda>s2.
     bind_res (if first_free s2 \<noteq> heap_listp s2 then SET_PRED s2 (first_free s2) bp
               else Inr s2) (\<lambda>s3.
     Inr (s3\<lparr>first_free := bp\<rparr>))))"

definition are_adjacent :: "heap_state \<Rightarrow> addr \<Rightarrow> bool \<Rightarrow> heap_state res" where
  "are_adjacent s bp case3 =
     (if case3 then
        bind_res (GET_SUCC s bp) (\<lambda>next.
        bind_res (SET_PRED s next (heap_listp s)) (\<lambda>s1.
        Inr (s1\<lparr>first_free := next\<rparr>)))
      else
        bind_res (GET_SUCC s bp) (\<lambda>sb.
        bind_res (GET_SUCC s sb) (\<lambda>new_succ.
        bind_res (SET_SUCC s bp new_succ) (\<lambda>s1.
        if new_succ \<noteq> heap_listp s1 then SET_PRED s1 new_succ bp else Inr s1))))"

definition not_adjacent :: "heap_state \<Rightarrow> addr \<Rightarrow> bool \<Rightarrow> heap_state res" where
  "not_adjacent s bp case3 =
     (if case3 then
        bind_res (PREV_BLKP s bp) (\<lambda>prev.
        bind_res (GET_PRED s prev) (\<lambda>pp.
        bind_res (GET_SUCC s prev) (\<lambda>ps.
        bind_res (SET_SUCC s pp ps) (\<lambda>s1.
        bind_res (GET_SUCC s1 prev) (\<lambda>ps1.
        bind_res (if ps1 \<noteq> heap_listp s1
                  then bind_res (GET_PRED s1 prev) (\<lambda>pp1. SET_PRED s1 ps1 pp1)
                  else Inr s1) (\<lambda>s2.
        bind_res (SET_PRED s2 prev (heap_listp s2)) (\<lambda>s3.
        bind_res (GET_SUCC s3 bp) (\<lambda>sb.
        bind_res (SET_SUCC s3 prev sb) (\<lambda>s4.
        let s5 = s4\<lparr>first_free := prev\<rparr> in
        bind_res (GET_SUCC s5 bp) (\<lambda>sb5.
        SET_PRED s5 sb5 (first_free s5)))))))))))
      else
        bind_res (NEXT_BLKP s bp) (\<lambda>next.
        bind_res (GET_PRED s next) (\<lambda>pred.
        bind_res (GET_SUCC s next) (\<lambda>succ.
        bind_res (SET_SUCC s pred succ) (\<lambda>s1.
        if succ \<noteq> heap_listp s1 then SET_PRED s1 succ pred else Inr s1)))))"

text \<open>The relink step of cases 2 and 4 (\<open>case3 = False\<close>) and of cases 3 and 4.\<close>

definition relink :: "heap_state \<Rightarrow> addr \<Rightarrow> bool \<Rightarrow> heap_state res" where
  "relink s bp case3 =
     bind_res (GET_SUCC s bp) (\<lambda>sb.
     bind_res (if case3 then PREV_BLKP s bp else NEXT_BLKP s bp) (\<lambda>nb.
     if sb = nb then are_adjacent s bp case3 else not_adjacent s bp case3))"

definition coalesce :: "heap_state \<Rightarrow> addr \<Rightarrow> (addr \<times> heap_state) res" where
  "coalesce s bp =
     bind_res (PREV_BLKP s bp) (\<lambda>pb.
     bind_res (FTRP s pb) (\<lambda>pf.
     bind_res (GET_ALLOC s pf) (\<lambda>prev_alloc.
     bind_res (NEXT_BLKP s bp) (\<lambda>nb.
     bind_res (GET_ALLOC s (HDRP nb)) (\<lambda>next_alloc.
     bind_res (GET_SIZE s (HDRP bp)) (\<lambda>size32.
     let sz = (ucast size32 :: addr) in
     if prev_alloc \<noteq> 0 \<and> next_alloc \<noteq> 0 then Inr (bp, s)
     else if prev_alloc \<noteq> 0 \<and> next_alloc = 0 then
       bind_res (relink s bp False) (\<lambda>s1.
       bind_res (NEXT_BLKP s1 bp) (\<lambda>nb1.
       bind_res (GET_SIZE s1 (HDRP nb1)) (\<lambda>nsz.
       let sz = sz + ucast nsz in
       bind_res (PUT s1 (HDRP bp) (PACK sz 0)) (\<lambda>s2.
       bind_res (FTRP s2 bp) (\<lambda>f.
       bind_res (PUT s2 f (PACK sz 0)) (\<lambda>s3.
       Inr (bp, s3)))))))
     else if prev_alloc = 0 \<and> next_alloc \<noteq> 0 then
       bind_res (relink s bp True) (\<lambda>s1.
       bind_res (PREV_BLKP s1 bp) (\<lambda>pb1.
       bind_res (GET_SIZE s1 (HDRP pb1)) (\<lambda>psz.
       let sz = sz + ucast psz in
       bind_res (FTRP s1 bp) (\<lambda>f.
       bind_res (PUT s1 f (PACK sz 0)) (\<lambda>s2.
       bind_res (PREV_BLKP s2 bp) (\<lambda>pb2.
       bind_res (PUT s2 (HDRP pb2) (PACK sz 0)) (\<lambda>s3.
       bind_res (PREV_BLKP s3 bp) (\<lambda>pb3.
       Inr (pb3, s3)))))))))
     else
       bind_res (relink s bp False) (\<lambda>s1.
       bind_res (relink s1 bp True) (\<lambda>s2.
       bind_res (PREV_BLKP s2 bp) (\<lambda>pb2.
       bind_res (GET_SIZE s2 (HDRP pb2)) (\<lambda>psz.
       bind_res (NEXT_BLKP s2 bp) (\<lambda>nb2.
       bind_res (FTRP s2 nb2) (\<lambda>nf2.
       bind_res (GET_SIZE s2 nf2) (\<lambda>nsz.
       let sz = sz + ucast (psz + nsz) in
       bind_res (PREV_BLKP s2 bp) (\<lambda>pb3.
       bind_res (PUT s2 (HDRP pb3) (PACK sz 0)) (\<lambda>s3.
       bind_res (NEXT_BLKP s3 bp) (\<lambda>nb3.
       bind_res (FTRP s3 nb3) (\<lambda>nf3.
       bind_res (PUT s3 nf3 (PACK sz 0)) (\<lambda>s4.
       bind_res (PREV_BLKP s4 bp) (\<lambda>pb4.
       Inr (pb4, s4))))))))))))))))))))"

section \<open>Heap extension and initialisation\<close>

definition extend_heap :: "heap_state \<Rightarrow> addr \<Rightarrow> (addr \<times> heap_state) res" where
  "extend_heap s words =
     (let sz = (if words mod 2 \<noteq> 0 then (words + 1) * WSIZE else words * WSIZE);
          (bp, s1) = mem_sbrk s sz
      in if bp = - 1 then Inr (0, s1)
         else
           bind_res (PUT s1 (HDRP bp) (PACK sz 0)) (\<lambda>s2.
           bind_res (FTRP s2 bp) (\<lambda>f.
           bind_res (PUT s2 f (PACK sz 0)) (\<lambda>s3.
           bind_res (NEXT_BLKP s3 bp) (\<lambda>nb.
           bind_res (PUT s3 (HDRP nb) (PACK 0 1)) (\<lambda>s4.
           bind_res (freelist_add s4 bp) (\<lambda>s5.
           coalesce s5 bp)))))))"

definition mm_init :: "heap_state \<Rightarrow> (int \<times> heap_state) res" where
  "mm_init s =
     (let (p, s0) = mem_sbrk s (4 * WSIZE);
          s1 = s0\<lparr>heap_listp := p\<rparr>
      in if p = - 1 then Inr (- 1, s1)
         else
           bind_res (PUT s1 (heap_listp s1) 0) (\<lambda>s2.
           bind_res (PUT s2 (heap_listp s2 + 1 * WSIZE) (PACK DSIZE 1)) (\<lambda>s3.
           bind_res (PUT s3 (heap_listp s3 + 2 * WSIZE) (PACK DSIZE 1)) (\<lambda>s4.
           bind_res (PUT s4 (heap_listp s4 + 3 * WSIZE) (PACK 0 1)) (\<lambda>s5.
           let s6 = s5\<lparr>heap_listp := heap_listp s5 + 2 * WSIZE\<rparr>;
               s7 = s6\<lparr>first_free := heap_listp s6\<rparr>
           in bind_res (extend_heap s7 (CHUNKSIZE div WSIZE)) (\<lambda>(bp, s8).
              if bp = 0 then Inr (- 1, s8) else Inr (0, s8)))))))"

section \<open>Placement and search\<close>

definition place :: "heap_state \<Rightarrow> addr \<Rightarrow> addr \<Rightarrow> heap_state res" where
  "place s bp asize =
     bind_res (GET_SIZE s (HDRP bp)) (\<lambda>csize32.
     let csize = (ucast csize32 :: addr) in
     bind_res (GET_PRED s bp) (\<lambda>pred.
     bind_res (GET_SUCC s bp) (\<lambda>succ.
     if csize - asize \<ge> 3 * DSIZE then
       bind_res (PUT s (HDRP bp) (PACK asize 1)) (\<lambda>s1.
       bind_res (FTRP s1 bp) (\<lambda>f.
       bind_res (PUT s1 f (PACK asize 1)) (\<lambda>s2.
       bind_res (NEXT_BLKP s2 bp) (\<lambda>new_bp.
       bind_res (PUT s2 (HDRP new_bp) (PACK (csize - asize) 0)) (\<lambda>s3.
       bind_res (FTRP s3 new_bp) (\<lambda>nf.
       bind_res (PUT s3 nf (PACK (csize - asize) 0)) (\<lambda>s4.
       bind_res (SET_PRED s4 new_bp pred) (\<lambda>s5.
       bind_res (SET_SUCC s5 new_bp succ) (\<lambda>s6.
       bind_res (if pred \<noteq> heap_listp s6 then SET_SUCC s6 pred new_bp else Inr s6) (\<lambda>s7.
       bind_res (if succ \<noteq> heap_listp s7 then SET_PRED s7 succ new_bp else Inr s7) (\<lambda>s8.
       Inr (if bp = first_free s8 then s8\<lparr>first_free := new_bp\<rparr> else s8))))))))))))
     else
       bind_res (PUT s (HDRP bp) (PACK csize 1)) (\<lambda>s1.
       bind_res (FTRP s1 bp) (\<lambda>f.
       bind_res (PUT s1 f (PACK csize 1)) (\<lambda>s2.
       if pred = heap_listp s2 then
         (let s3 = s2\<lparr>first_free := succ\<rparr>
          in if succ \<noteq> heap_listp s3 then SET_PRED s3 (first_free s3) (heap_listp s3)
             else Inr s3)
       else if succ \<noteq> heap_listp s2 then
         bind_res (SET_SUCC s2 pred succ) (\<lambda>s3. SET_PRED s3 succ pred)
       else SET_SUCC s2 pred succ))))))"

text \<open>
  The test of the \<open>for\<close> loop of \<open>find_fit\<close>:
  \<open>!GET_ALLOC(HDRP(bp)) && (asize <= GET_SIZE(HDRP(bp)))\<close>.
\<close>

definition fits :: "heap_state \<Rightarrow> addr \<Rightarrow> addr \<Rightarrow> bool res" where
  "fits s asize bp =
     bind_res (GET_ALLOC s (HDRP bp)) (\<lambda>a.
     if a \<noteq> 0 then Inr False
     else bind_res (GET_SIZE s (HDRP bp)) (\<lambda>n. Inr (asize \<le> ucast n)))"

text \<open>
  The loop of \<open>find_fit\<close> from the block \<open>bp\<close> on.  It follows successor links until
  it meets \<open>heap_listp\<close>, so on a cyclic list it does not return: the value \<open>None\<close>.
  \<open>NULL\<close> is the address 0.
\<close>

partial_function (option) find_fit_from :: "heap_state \<Rightarrow> addr \<Rightarrow> addr \<Rightarrow> addr res option" where
  "find_fit_from s asize bp =
     (if bp = heap_listp s then Some (Inr 0)
      else case fits s asize bp of
             Inl e \<Rightarrow> Some (Inl e)
           | Inr found \<Rightarrow>
               if found then Some (Inr bp)
               else (case GET_SUCC s bp of
                       Inl e \<Rightarrow> Some (Inl e)
                     | Inr nxt \<Rightarrow> find_fit_from s asize nxt))"

definition find_fit :: "heap_state \<Rightarrow> addr \<Rightarrow> addr res option" where
  "find_fit s asize = find_fit_from s asize (first_free s)"

section \<open>The allocator API\<close>

text \<open>Lines 171 to 175 of \<open>malloc\<close>: the adjusted block size.\<close>

definition adjust_size :: "addr \<Rightarrow> addr" where
  "adjust_size sz =
     (if sz \<le> MINBLKSIZE then 3 * DSIZE
      else DSIZE * ((sz + DSIZE + (DSIZE - 1)) div DSIZE))"

text \<open>\<open>if (heap_listp == 0) mm_init();\<close>: the result of \<open>mm_init\<close> is dropped.\<close>

definition lazy_init :: "heap_state \<Rightarrow> heap_state res" where
  "lazy_init s = (if heap_listp s = 0 then bind_res (mm_init s) (\<lambda>(r, s1). Inr s1) else Inr s)"

definition malloc :: "heap_state \<Rightarrow> addr \<Rightarrow> (addr \<times> heap_state) res option" where
  "malloc s0 sz =
     (case lazy_init s0 of
        Inl e \<Rightarrow> Some (Inl e)
      | Inr s \<Rightarrow>
          if sz = 0 then Some (Inr (0, s))
          else
            let asize = adjust_size sz in
            (case find_fit s asize of
               None \<Rightarrow> None
             | Some (Inl e) \<Rightarrow> Some (Inl e)
             | Some (Inr bp) \<Rightarrow>
                 if bp \<noteq> 0 then Some (bind_res (place s bp asize) (\<lambda>s1. Inr (bp, s1)))
                 else
                   let extendsize = max asize CHUNKSIZE in
                   Some (bind_res (extend_heap s (extendsize div WSIZE)) (\<lambda>(bp, s1).
                         if bp = 0 then Inr (0, s1)
                         else bind_res (place s1 bp asize) (\<lambda>s2. Inr (bp, s2))))))"

definition free :: "heap_state \<Rightarrow> addr \<Rightarrow> heap_state res" where
  "free s0 bp =
     (if bp = 0 then Inr s0
      else
        bind_res (GET_SIZE s0 (HDRP bp)) (\<lambda>size32.
        let sz = (ucast size32 :: addr) in
        bind_res (lazy_init s0) (\<lambda>s.
        bind_res (PUT s (HDRP bp) (PACK sz 0)) (\<lambda>s1.
        bind_res (FTRP s1 bp) (\<lambda>f.
        bind_res (PUT s1 f (PACK sz 0)) (\<lambda>s2.
        bind_res (freelist_add s2 bp) (\<lambda>s3.
        bind_res (coalesce s3 bp) (\<lambda>(r, s4). Inr s4))))))))"

definition realloc :: "heap_state \<Rightarrow> addr \<Rightarrow> addr \<Rightarrow> (addr \<times> heap_state) res option" where
  "realloc s ptr sz =
     (if sz = 0 then Some (bind_res (free s ptr) (\<lambda>s1. Inr (0, s1)))
      else if ptr = 0 then malloc s sz
      else
        (case malloc s sz of
           None \<Rightarrow> None
         | Some (Inl e) \<Rightarrow> Some (Inl e)
         | Some (Inr (newptr, s1)) \<Rightarrow>
             if newptr = 0 then Some (Inr (0, s1))
             else
               Some (bind_res (GET_SIZE s1 (HDRP ptr)) (\<lambda>old32.
                     let oldsize = (ucast old32 :: addr);
                         oldsize = (if sz < oldsize then sz else oldsize)
                     in bind_res (memcpy s1 newptr ptr oldsize) (\<lambda>s2.
                        bind_res (free s2 ptr) (\<lambda>s3.
                        Inr (newptr, s3)))))))"

definition calloc :: "heap_state \<Rightarrow> addr \<Rightarrow> addr \<Rightarrow> (addr \<times> heap_state) res option" where
  "calloc s nmemb sz =
     (let bytes = nmemb * sz in
      case malloc s bytes of
        None \<Rightarrow> None
      | Some (Inl e) \<Rightarrow> Some (Inl e)
      | Some (Inr (newptr, s1)) \<Rightarrow>
          Some (bind_res (memset s1 newptr 0 bytes) (\<lambda>s2. Inr (newptr, s2))))"

declare find_fit_from.simps [code]

section \<open>The heap in double words\<close>

text \<open>
  Every address the allocator computes is a multiple of 4, and every block starts and
  ends on a multiple of 8.  The proofs therefore read the memory one double word (8
  bytes) at a time: \<open>dw_lo s d\<close> is the 4-byte word at byte address \<open>8 * d\<close>,
  \<open>dw_hi s d\<close> the one at \<open>8 * d + 4\<close>, and \<open>set_lo\<close>, \<open>set_hi\<close> are the
  corresponding stores.  A block is named by the index \<open>x\<close> of the double word whose
  high half is its header; its payload pointer is \<open>bptr x\<close>, at byte \<open>8 * x + 8\<close>.
\<close>

definition dw_lo :: "heap_state \<Rightarrow> nat \<Rightarrow> word32" where
  "dw_lo s d = (if d < 2 ^ 61 then load32 (mem s) (of_nat (8 * d)) else 0)"

definition dw_hi :: "heap_state \<Rightarrow> nat \<Rightarrow> word32" where
  "dw_hi s d = (if d < 2 ^ 61 then load32 (mem s) (of_nat (8 * d + 4)) else 0)"

definition set_lo :: "heap_state \<Rightarrow> nat \<Rightarrow> word32 \<Rightarrow> heap_state" where
  "set_lo s d v = (if d < 2 ^ 61 then s\<lparr>mem := store32 (mem s) (of_nat (8 * d)) v\<rparr> else s)"

definition set_hi :: "heap_state \<Rightarrow> nat \<Rightarrow> word32 \<Rightarrow> heap_state" where
  "set_hi s d v = (if d < 2 ^ 61 then s\<lparr>mem := store32 (mem s) (of_nat (8 * d + 4)) v\<rparr> else s)"

definition bptr :: "nat \<Rightarrow> addr" where
  "bptr x = of_nat (8 * x + 8)"

text \<open>
  \<open>tag k al\<close> is the header or footer word of a block of \<open>k\<close> double words,
  \<open>PACK(8 * k, al)\<close>; \<open>off d\<close> is the compressed link to the block \<open>d\<close> double
  words after \<open>heap_listp\<close>.
\<close>

definition tag :: "nat \<Rightarrow> bool \<Rightarrow> word32" where
  "tag k al = PACK (of_nat (8 * k)) (if al then 1 else 0)"

definition off :: "nat \<Rightarrow> word32" where
  "off d = of_nat (8 * d)"

text \<open>
  \<open>region s h e\<close>: the heap starts at byte \<open>8 * h\<close>, the prologue footer (where
  \<open>heap_listp\<close> points) is the low half of double word \<open>h + 1\<close>, the epilogue header
  is the high half of double word \<open>e\<close>, the break is right behind it, and the whole
  arena the host can ever give is shorter than \<open>2 ^ 32\<close> bytes, so that every offset
  fits the 4-byte link fields.
\<close>

definition region :: "heap_state \<Rightarrow> nat \<Rightarrow> nat \<Rightarrow> bool" where
  "region s h e \<longleftrightarrow>
     unat (mem_heap s) = 8 * h \<and> unat (mem_brk s) = 8 * e + 8 \<and> heap_listp s = bptr h \<and>
     h < e \<and> 8 * e + 8 \<le> unat (mem_max_addr s) \<and> unat (mem_max_addr s) < 8 * h + 2 ^ 32"

text \<open>
  \<open>copied s dst src n\<close> is the state after \<open>memcpy(dst, src, n)\<close> has run in \<open>s\<close>.
\<close>

definition copied :: "heap_state \<Rightarrow> addr \<Rightarrow> addr \<Rightarrow> addr \<Rightarrow> heap_state" where
  "copied s dst src n = s\<lparr>mem := (\<lambda>a. if a - dst < n then mem s (src + (a - dst)) else mem s a)\<rparr>"

section \<open>The heap invariant\<close>

text \<open>
  The blocks between prologue and epilogue are described by the list of their sizes
  (in double words) and allocation flags, in address order.  \<open>blocks a bl\<close> gives each
  block its position; \<open>frees\<close> are the positions of the free ones.
\<close>

type_synonym blk = "nat \<times> bool"

definition total :: "blk list \<Rightarrow> nat" where
  "total bl = sum_list (map fst bl)"

fun blocks :: "nat \<Rightarrow> blk list \<Rightarrow> (nat \<times> nat \<times> bool) list" where
  "blocks a [] = []"
| "blocks a ((k, al) # bl) = (a, k, al) # blocks (a + k) bl"

definition frees :: "nat \<Rightarrow> blk list \<Rightarrow> nat list" where
  "frees a bl = map fst (filter (\<lambda>(y, k, al). \<not> al) (blocks a bl))"

definition all_blocks :: "nat \<Rightarrow> blk list \<Rightarrow> (nat \<times> nat \<times> bool) list" where
  "all_blocks h bs = (h, 1, True) # blocks (Suc h) bs"

text \<open>
  \<open>seg\<close>: every block has at least 3 double words (24 bytes) and a header and a footer
  that agree with its size and flag.  \<open>dll s h p fl q\<close>: the blocks \<open>fl\<close>, in this
  order, are doubly linked through their first payload double word, starting after
  \<open>p\<close> and ending before \<open>q\<close>; the sentinel \<open>heap_listp\<close> is the block \<open>h\<close>.
\<close>

definition seg :: "heap_state \<Rightarrow> nat \<Rightarrow> blk list \<Rightarrow> bool" where
  "seg s a bl \<longleftrightarrow>
     (\<forall>(y, k, al) \<in> set (blocks a bl). 3 \<le> k \<and> dw_hi s y = tag k al \<and> dw_lo s (y + k) = tag k al)"

fun dll :: "heap_state \<Rightarrow> nat \<Rightarrow> nat \<Rightarrow> nat list \<Rightarrow> nat \<Rightarrow> bool" where
  "dll s h p [] q = True"
| "dll s h p (x # xs) q =
     (dw_lo s (Suc x) = off (p - h) \<and> dw_hi s (Suc x) = off (hd (xs @ [q]) - h) \<and> dll s h x xs q)"

text \<open>
  \<open>heap_ok s h bs fl\<close>, the invariant of the allocator: the region is well formed,
  prologue and epilogue are in place, the blocks \<open>bs\<close> tile the heap, and the free list
  that starts at \<open>first_free\<close> is \<open>fl\<close>, without duplicates, and holds exactly the free
  blocks of \<open>bs\<close>.  \<open>tags_ok\<close> and \<open>list_ok\<close> are its two halves.
\<close>

definition heap_ok :: "heap_state \<Rightarrow> nat \<Rightarrow> blk list \<Rightarrow> nat list \<Rightarrow> bool" where
  "heap_ok s h bs fl \<longleftrightarrow>
     region s h (Suc (h + total bs)) \<and>
     dw_hi s h = tag 1 True \<and> dw_lo s (Suc h) = tag 1 True \<and>
     seg s (Suc h) bs \<and>
     dw_hi s (Suc (h + total bs)) = tag 0 True \<and>
     first_free s = bptr (hd (fl @ [h])) \<and>
     dll s h h fl h \<and> distinct fl \<and> set fl = set (frees (Suc h) bs)"

definition tags_ok :: "heap_state \<Rightarrow> nat \<Rightarrow> blk list \<Rightarrow> bool" where
  "tags_ok s h bs \<longleftrightarrow>
     region s h (Suc (h + total bs)) \<and>
     dw_hi s h = tag 1 True \<and> dw_lo s (Suc h) = tag 1 True \<and>
     seg s (Suc h) bs \<and>
     dw_hi s (Suc (h + total bs)) = tag 0 True"

definition list_ok :: "heap_state \<Rightarrow> nat \<Rightarrow> nat list \<Rightarrow> bool" where
  "list_ok s h fl \<longleftrightarrow> first_free s = bptr (hd (fl @ [h])) \<and> dll s h h fl h \<and> distinct fl"

text \<open>
  \<open>naf\<close>: no two neighbours of a list are both free.  \<open>keeps_alloc\<close>: every allocated
  block of the first layout is an allocated block of the second.  \<open>same_region\<close>: the
  two states differ at most in memory and \<open>first_free\<close>.  \<open>unlinked\<close> is the state
  after a node between \<open>p\<close> and \<open>n\<close> has been taken out of the list.
\<close>

fun naf :: "('a \<times> bool) list \<Rightarrow> bool" where
  "naf [] = True"
| "naf [b] = True"
| "naf (b1 # b2 # bl) = ((snd b1 \<or> snd b2) \<and> naf (b2 # bl))"

definition keeps_alloc :: "nat \<Rightarrow> blk list \<Rightarrow> blk list \<Rightarrow> bool" where
  "keeps_alloc h bs bs' \<longleftrightarrow>
     (\<forall>y j. (y, j, True) \<in> set (blocks (Suc h) bs) \<longrightarrow> (y, j, True) \<in> set (blocks (Suc h) bs'))"

definition same_region :: "heap_state \<Rightarrow> heap_state \<Rightarrow> bool" where
  "same_region s s' \<longleftrightarrow>
     mem_heap s' = mem_heap s \<and> mem_brk s' = mem_brk s \<and>
     mem_max_addr s' = mem_max_addr s \<and> heap_listp s' = heap_listp s"

definition unlinked :: "heap_state \<Rightarrow> nat \<Rightarrow> nat \<Rightarrow> nat \<Rightarrow> heap_state" where
  "unlinked s h p n =
     (if n = h then set_hi s (Suc p) (off (n - h))
      else set_lo (set_hi s (Suc p) (off (n - h))) (Suc n) (off (p - h)))"

text \<open>
  \<open>bsize h bs z\<close> is the size of the block at \<open>z\<close>; \<open>asz sz\<close> is the adjusted request
  size of \<open>malloc\<close> in double words; \<open>placed_bs\<close> and \<open>placed_fl\<close> are the layout and
  the free list after \<open>place\<close> has put \<open>a\<close> double words into the free block of \<open>c\<close>
  double words at \<open>x\<close>; \<open>fresh s h\<close> is a heap on which \<open>mm_init\<close> has never run.
\<close>

definition bsize :: "nat \<Rightarrow> blk list \<Rightarrow> nat \<Rightarrow> nat" where
  "bsize h bs z = (case List.find (\<lambda>(y, k, al). y = z) (blocks (Suc h) bs) of
                     Some (y, k, al) \<Rightarrow> k | None \<Rightarrow> 0)"

definition asz :: "addr \<Rightarrow> nat" where
  "asz sz = (if unat sz \<le> 16 then 3 else (unat sz + 15) div 8)"

definition placed_bs :: "blk list \<Rightarrow> nat \<Rightarrow> nat \<Rightarrow> blk list \<Rightarrow> blk list" where
  "placed_bs xs a c ys =
     (if 3 \<le> c - a then xs @ (a, True) # (c - a, False) # ys else xs @ (c, True) # ys)"

definition placed_fl :: "nat list \<Rightarrow> nat \<Rightarrow> nat \<Rightarrow> nat \<Rightarrow> nat list \<Rightarrow> nat list" where
  "placed_fl us x a c vs = (if 3 \<le> c - a then us @ (x + a) # vs else us @ vs)"

definition fresh :: "heap_state \<Rightarrow> nat \<Rightarrow> bool" where
  "fresh s h \<longleftrightarrow>
     heap_listp s = 0 \<and> unat (mem_heap s) = 8 * h \<and> mem_brk s = mem_heap s \<and>
     unat (mem_max_addr s) < 8 * h + 2 ^ 32"

section \<open>The invariant in the terms of the code\<close>

text \<open>
  The two loops with which the code itself inspects the heap.  \<open>list_walk\<close> is the
  loop of \<open>find_fit\<close> and \<open>in_freelist\<close>,
  \<open>for (bp = first_free; bp != heap_listp; bp = GET_SUCC(bp))\<close>, and returns the nodes it
  meets; \<open>block_walk\<close> is the loop of \<open>mm_checkheap\<close>,
  \<open>for (bp = heap_listp; GET_SIZE(HDRP(bp)) > 0; bp = NEXT_BLKP(bp))\<close>, and returns every
  block with its allocated bit.  Both take fuel: a walk that has not ended after \<open>n\<close>
  steps, as on a cyclic list, or that leaves the arena, is \<open>None\<close>.
\<close>

fun list_walk :: "heap_state \<Rightarrow> nat \<Rightarrow> addr \<Rightarrow> addr list option" where
  "list_walk s 0 bp = (if bp = heap_listp s then Some [] else None)"
| "list_walk s (Suc n) bp =
     (if bp = heap_listp s then Some []
      else case GET_SUCC s bp of
             Inl e \<Rightarrow> None
           | Inr nxt \<Rightarrow> map_option ((#) bp) (list_walk s n nxt))"




section \<open>Example states\<close>


definition s_fresh :: heap_state where
  "s_fresh = \<lparr>mem = (\<lambda>_. 0), mem_heap = 0x1000, mem_brk = 0x1000, mem_max_addr = 0x101000,
               heap_listp = 0, first_free = 0\<rparr>"

definition s_none :: heap_state where
  "s_none = \<lparr>mem = (\<lambda>_. 0), mem_heap = 0x1000, mem_brk = 0x1000, mem_max_addr = 0x1000,
              heap_listp = 0, first_free = 0\<rparr>"

text \<open>
  \<open>s_two\<close>: the heap after \<open>mm_init\<close> and one \<open>malloc(16)\<close>, byte for byte, on zeroed
  memory.  At \<open>0x1004\<close> and \<open>0x1008\<close> the prologue (8 | 1); at \<open>0x100C\<close> and \<open>0x1020\<close>
  header and footer of the allocated block (24 | 1) whose payload is the 16 bytes from
  \<open>0x1010\<close>; at \<open>0x1024\<close> and \<open>0x1208\<close> header and footer of the free block (488 | 0)
  at \<open>0x1028\<close>, whose two links are 0, the sentinel; at \<open>0x120C\<close> the epilogue (0 | 1).
  \<open>s_zero\<close> is the same state before the seven words are written.  \<open>s_full\<close> is
  \<open>s_two\<close> on a host that has no more memory to give.
\<close>

definition heap_image :: "addr \<Rightarrow> byte" where
  "heap_image = foldl (\<lambda>m (a, v). store32 m a v) (\<lambda>_. 0)
     [(0x1004, 9), (0x1008, 9), (0x100C, 25), (0x1020, 25), (0x1024, 488),
      (0x1208, 488), (0x120C, 1)]"

definition s_two :: heap_state where
  "s_two = \<lparr>mem = heap_image, mem_heap = 0x1000, mem_brk = 0x1210, mem_max_addr = 0x101000,
             heap_listp = 0x1008, first_free = 0x1028\<rparr>"

definition s_zero :: heap_state where
  "s_zero = \<lparr>mem = (\<lambda>_. 0), mem_heap = 0x1000, mem_brk = 0x1210, mem_max_addr = 0x101000,
             heap_listp = 0x1008, first_free = 0x1028\<rparr>"

definition s_full :: heap_state where
  "s_full = s_two\<lparr>mem_max_addr := 0x1210\<rparr>"

text \<open>
  \<open>s_list\<close>: a heap of the same length with five blocks, free (40 bytes, at \<open>0x1010\<close>),
  allocated (24), free (24, at \<open>0x1050\<close>), allocated (24), free (400, at \<open>0x1080\<close>).
  The free list runs \<open>0x1010\<close>, \<open>0x1050\<close>, \<open>0x1080\<close>: the words at \<open>0x1014\<close>,
  \<open>0x1054\<close> are the successor offsets 72 and 120, the words at \<open>0x1050\<close>, \<open>0x1080\<close>
  the predecessor offsets 8 and 72; the links to the sentinel are 0.
\<close>

definition list_image :: "addr \<Rightarrow> byte" where
  "list_image = foldl (\<lambda>m (a, v). store32 m a v) (\<lambda>_. 0)
     [(0x1004, 9), (0x1008, 9),
      (0x100C, 40), (0x1014, 72), (0x1030, 40),
      (0x1034, 25), (0x1048, 25),
      (0x104C, 24), (0x1050, 8), (0x1054, 120), (0x1060, 24),
      (0x1064, 25), (0x1078, 25),
      (0x107C, 400), (0x1080, 72), (0x1208, 400),
      (0x120C, 1)]"

definition s_list :: heap_state where
  "s_list = \<lparr>mem = list_image, mem_heap = 0x1000, mem_brk = 0x1210, mem_max_addr = 0x101000,
              heap_listp = 0x1008, first_free = 0x1010\<rparr>"

text \<open>
  Projections of results, and the two intermediate states of \<open>realloc(0x1010, 24)\<close> on
  \<open>s_two\<close>: after its \<open>malloc\<close>, and after its \<open>memcpy\<close>.
\<close>

definition state_of :: "heap_state \<Rightarrow> (addr \<times> heap_state) res option \<Rightarrow> heap_state" where
  "state_of d r = (case r of Some (Inr (p, s)) \<Rightarrow> s | _ \<Rightarrow> d)"

definition ptr_of :: "(addr \<times> heap_state) res option \<Rightarrow> addr" where
  "ptr_of r = (case r of Some (Inr (p, s)) \<Rightarrow> p | _ \<Rightarrow> 0)"

definition res_state :: "heap_state \<Rightarrow> heap_state res \<Rightarrow> heap_state" where
  "res_state d r = (case r of Inr s \<Rightarrow> s | Inl e \<Rightarrow> d)"

definition s_two_m :: heap_state where
  "s_two_m = state_of s_two (malloc s_two 24)"

definition s_two_c :: heap_state where
  "s_two_c = res_state s_two_m (memcpy s_two_m 0x1028 0x1010 24)"


section \<open>Request sizing\<close>

lemma adjust_size_small: "sz \<le> 16 \<Longrightarrow> adjust_size sz = 24"
  by (simp add: adjust_size_def)

lemma adjust_size_large: "16 < sz \<Longrightarrow> adjust_size sz = 8 * ((sz + 8 + 7) div 8)"
  by (simp add: adjust_size_def not_le[symmetric])

lemma unat_adjust_size:
  assumes "16 < sz" "unat sz + 15 < 2 ^ 64"
  shows "unat (adjust_size sz) = 8 * ((unat sz + 15) div 8)"
proof -
  have a: "unat (sz + 8 + 7) = unat sz + 15"
    using assms(2) by (simp add: unat_word_ariths)
  have b: "unat ((sz + 8 + 7) div 8) = (unat sz + 15) div 8"
    unfolding unat_div a by simp
  have c: "8 * ((unat sz + 15) div 8) < 2 ^ 64"
    using assms(2) by simp
  have "unat (8 * ((sz + 8 + 7) div 8)) = 8 * ((unat sz + 15) div 8)"
    using c by (simp add: unat_word_ariths b)
  then show ?thesis using assms(1) by (simp add: adjust_size_large)
qed



section \<open>Words in memory\<close>

lemma le32_bytes:
  "le32 (ucast v) (ucast (drop_bit 8 v)) (ucast (drop_bit 16 v)) (ucast (drop_bit 24 v)) = v"
proof (rule bit_word_eqI)
  fix n assume n: "n < LENGTH(32)"
  consider "n < 8" | "8 \<le> n" "n < 16" | "16 \<le> n" "n < 24" | "24 \<le> n" by linarith
  then show "bit (le32 (ucast v) (ucast (drop_bit 8 v)) (ucast (drop_bit 16 v))
                 (ucast (drop_bit 24 v))) n = bit v n"
    using n by cases (auto simp: le32_def bit_simps)
qed

lemma load32_store32_same: "load32 (store32 m p v) p = v"
  by (simp add: load32_def store32_def le32_bytes)

lemma load32_store32_other:
  assumes "\<And>i j :: nat. i < 4 \<Longrightarrow> j < 4 \<Longrightarrow> q + of_nat i \<noteq> p + of_nat j"
  shows "load32 (store32 m p v) q = load32 m q"
proof -
  have "store32 m p v (q + of_nat i) = m (q + of_nat i)" if "i < 4" for i :: nat
    using assms [OF that, of 0] assms [OF that, of 1] assms [OF that, of 2]
      assms [OF that, of 3]
    by (simp add: store32_def)
  from this [of 0] this [of 1] this [of 2] this [of 3]
  show ?thesis by (simp add: load32_def)
qed

lemma unat_lt64: "unat (w :: addr) < 2 ^ 64"
  by (rule order_less_le_trans [OF unsigned_less]) simp

lemma of_nat_eq64:
  "a < 2 ^ 64 \<Longrightarrow> b < 2 ^ 64 \<Longrightarrow> ((of_nat a :: addr) = of_nat b) = (a = b)"
  by (simp add: word_of_nat_eq_iff take_bit_nat_eq_self)

lemma unat_of_nat64: "a < 2 ^ 64 \<Longrightarrow> unat (of_nat a :: addr) = a"
  by (simp add: unat_of_nat)

lemma set_fields [simp]:
  "mem_heap (set_lo s d v) = mem_heap s" "mem_brk (set_lo s d v) = mem_brk s"
  "mem_max_addr (set_lo s d v) = mem_max_addr s" "heap_listp (set_lo s d v) = heap_listp s"
  "first_free (set_lo s d v) = first_free s"
  "mem_heap (set_hi s d v) = mem_heap s" "mem_brk (set_hi s d v) = mem_brk s"
  "mem_max_addr (set_hi s d v) = mem_max_addr s" "heap_listp (set_hi s d v) = heap_listp s"
  "first_free (set_hi s d v) = first_free s"
  by (simp_all add: set_lo_def set_hi_def)

lemma store32_apart:
  assumes "a + 4 \<le> 2 ^ 64" "b + 4 \<le> 2 ^ 64" "a + 4 \<le> b \<or> b + 4 \<le> a"
  shows "load32 (store32 m (of_nat a) v) (of_nat b) = load32 m (of_nat b)"
proof -
  have "(of_nat b :: addr) + of_nat i \<noteq> of_nat a + of_nat j" if "i < 4" "j < 4" for i j :: nat
  proof -
    have "(of_nat (b + i) :: addr) \<noteq> of_nat (a + j)"
      using assms that by (subst of_nat_eq64) auto
    then show ?thesis by simp
  qed
  then show ?thesis by (rule load32_store32_other)
qed

lemma lo_set_lo_same [simp]: "d < 2 ^ 61 \<Longrightarrow> dw_lo (set_lo s d v) d = v"
  by (simp add: dw_lo_def set_lo_def load32_store32_same)

lemma hi_set_hi_same [simp]: "d < 2 ^ 61 \<Longrightarrow> dw_hi (set_hi s d v) d = v"
  by (simp add: dw_hi_def set_hi_def load32_store32_same)

lemma lo_set_lo_other [simp]: "d' \<noteq> d \<Longrightarrow> dw_lo (set_lo s d v) d' = dw_lo s d'"
  unfolding dw_lo_def set_lo_def
  by (auto simp del: of_nat_mult of_nat_add intro!: store32_apart)

lemma hi_set_hi_other [simp]: "d' \<noteq> d \<Longrightarrow> dw_hi (set_hi s d v) d' = dw_hi s d'"
  unfolding dw_hi_def set_hi_def
  by (auto simp del: of_nat_mult of_nat_add intro!: store32_apart)

lemma lo_set_hi [simp]: "dw_lo (set_hi s d v) d' = dw_lo s d'"
  unfolding dw_lo_def set_hi_def
  by (auto simp del: of_nat_mult of_nat_add intro!: store32_apart)

lemma hi_set_lo [simp]: "dw_hi (set_lo s d v) d' = dw_hi s d'"
  unfolding dw_hi_def set_lo_def
  by (auto simp del: of_nat_mult of_nat_add intro!: store32_apart)

lemma first_free_upd_dw [simp]:
  "dw_lo (s\<lparr>first_free := p\<rparr>) d = dw_lo s d" "dw_hi (s\<lparr>first_free := p\<rparr>) d = dw_hi s d"
  by (simp_all add: dw_lo_def dw_hi_def)

lemma GET_lo:
  assumes "unat (mem_heap s) \<le> 8 * d" "8 * d + 4 \<le> unat (mem_max_addr s)"
  shows "GET s (of_nat (8 * d)) = Inr (dw_lo s d)"
proof -
  have "8 * d + 4 < 2 ^ 64" using assms(2) unat_lt64 [of "mem_max_addr s"] by simp
  then show ?thesis using assms
    by (simp add: GET_def in_heap_def unat_of_nat64 dw_lo_def del: of_nat_mult)
qed

lemma GET_hi:
  assumes "unat (mem_heap s) \<le> 8 * d + 4" "8 * d + 8 \<le> unat (mem_max_addr s)"
  shows "GET s (of_nat (8 * d + 4)) = Inr (dw_hi s d)"
proof -
  have "8 * d + 8 < 2 ^ 64" using assms(2) unat_lt64 [of "mem_max_addr s"] by simp
  then show ?thesis using assms
    by (simp add: GET_def in_heap_def unat_of_nat64 dw_hi_def del: of_nat_mult of_nat_add)
qed

lemma PUT_lo:
  assumes "unat (mem_heap s) \<le> 8 * d" "8 * d + 4 \<le> unat (mem_max_addr s)"
  shows "PUT s (of_nat (8 * d)) v = Inr (set_lo s d v)"
proof -
  have "8 * d + 4 < 2 ^ 64" using assms(2) unat_lt64 [of "mem_max_addr s"] by simp
  then show ?thesis using assms
    by (simp add: PUT_def in_heap_def unat_of_nat64 set_lo_def del: of_nat_mult)
qed

lemma PUT_hi:
  assumes "unat (mem_heap s) \<le> 8 * d + 4" "8 * d + 8 \<le> unat (mem_max_addr s)"
  shows "PUT s (of_nat (8 * d + 4)) v = Inr (set_hi s d v)"
proof -
  have "8 * d + 8 < 2 ^ 64" using assms(2) unat_lt64 [of "mem_max_addr s"] by simp
  then show ?thesis using assms
    by (simp add: PUT_def in_heap_def unat_of_nat64 set_hi_def del: of_nat_mult of_nat_add)
qed

section \<open>Block pointers, tags and offsets\<close>

lemma bptr_eq: "8 * x + 8 < 2 ^ 64 \<Longrightarrow> 8 * y + 8 < 2 ^ 64 \<Longrightarrow> (bptr x = bptr y) = (x = y)"
  unfolding bptr_def by (subst of_nat_eq64) auto

lemma bptr_nz: "8 * x + 8 < 2 ^ 64 \<Longrightarrow> bptr x \<noteq> 0"
  using of_nat_eq64 [of "8 * x + 8" 0] unfolding bptr_def by (simp del: of_nat_add of_nat_mult)

lemma unat_bptr: "8 * x + 8 < 2 ^ 64 \<Longrightarrow> unat (bptr x) = 8 * x + 8"
  unfolding bptr_def by (rule unat_of_nat64) simp

lemma HDRP_bptr: "HDRP (bptr x) = of_nat (8 * x + 4)"
  by (simp add: HDRP_def bptr_def)

lemma bptr_sub8: "bptr x - 8 = of_nat (8 * x)"
  by (simp add: bptr_def)

lemma bptr_lo: "bptr x = of_nat (8 * Suc x)"
  by (simp add: bptr_def)

lemma bptr_add4: "bptr x + 4 = of_nat (8 * Suc x + 4)"
  by (simp add: bptr_def)

lemma bit_nat_8: "bit (8 * k :: nat) n \<Longrightarrow> 3 \<le> n"
proof -
  have "(8 * k :: nat) = push_bit 3 k"
    by (simp add: push_bit_eq_mult)
  then show "bit (8 * k :: nat) n \<Longrightarrow> 3 \<le> n"
    by (simp add: bit_push_bit_iff)
qed

lemma tag_size: "tag k al AND NOT 7 = of_nat (8 * k)"
proof (rule bit_word_eqI)
  fix n assume "n < LENGTH(32)"
  have m: "bit (7 :: int) n = (n < 3)"
    using bit_mask_iff [where 'a = int, of 3 n] by (simp add: mask_eq_exp_minus_1)
  have o: "bit (1 :: addr) n = (n = 0)" by (simp add: bit_1_iff)
  show "bit (tag k al AND NOT 7) n = bit (of_nat (8 * k) :: word32) n"
    using bit_nat_8 [of k n] \<open>n < LENGTH(32)\<close>
    by (auto simp: tag_def PACK_def bit_simps m o simp del: of_nat_mult)
qed

lemma tag_alloc: "tag k al AND 1 = (if al then 1 else 0)"
proof (rule bit_word_eqI)
  fix n assume "n < LENGTH(32)"
  have o: "bit (1 :: addr) n = (n = 0)" by (simp add: bit_1_iff)
  have o': "bit (1 :: word32) n = (n = 0)" by (simp add: bit_1_iff)
  show "bit (tag k al AND 1) n = bit (if al then 1 else 0 :: word32) n"
    using bit_nat_8 [of k n] \<open>n < LENGTH(32)\<close>
    by (auto simp: tag_def PACK_def bit_simps o o' simp del: of_nat_mult)
qed

lemma ucast_sz: "8 * k < 2 ^ 32 \<Longrightarrow> (ucast (of_nat (8 * k) :: word32) :: addr) = of_nat (8 * k)"
proof -
  assume a: "8 * k < 2 ^ 32"
  have "(ucast (of_nat (8 * k) :: word32) :: addr) = of_nat (unat (of_nat (8 * k) :: word32))"
    by (simp del: of_nat_mult)
  also have "unat (of_nat (8 * k) :: word32) = 8 * k"
    using a by (simp add: unat_of_nat del: of_nat_mult)
  finally show ?thesis .
qed

lemma PACK_tag: "PACK (of_nat (8 * k)) 0 = tag k False" "PACK (of_nat (8 * k)) 1 = tag k True"
  by (simp_all add: tag_def)

section \<open>Reading and writing inside the region\<close>

lemma ucast_down_of_nat: "(ucast (of_nat n :: addr) :: word32) = of_nat n"
proof -
  have "(ucast (word_of_int (int n) :: addr) :: word32) = word_of_int (int n)"
    by (rule ucast_down_wi) (simp add: is_down)
  then show ?thesis by simp
qed

lemma ucast_up_of_nat: "(ucast (of_nat n :: word32) :: addr) = of_nat (n mod 2 ^ 32)"
proof -
  have "(ucast (of_nat n :: word32) :: addr) = of_nat (unat (of_nat n :: word32))"
    by simp
  then show ?thesis by (simp add: unat_of_nat)
qed

lemma SET_OFFSET_bptr:
  assumes "heap_listp s = bptr h" "h \<le> p"
  shows "SET_OFFSET s (bptr p) = off (p - h)"
proof -
  let ?a = "8 * p + 8" and ?b = "8 * h + 8"
  have 1: "(ucast (ucast (of_nat ?a :: addr) :: word32) :: addr) = of_nat (?a mod 2 ^ 32)"
    unfolding ucast_down_of_nat ucast_up_of_nat ..
  have 2: "(of_nat (?a mod 2 ^ 32) :: addr) - of_nat ?b
           = word_of_int (int (?a mod 2 ^ 32) - int ?b)"
    by simp
  have 3: "(ucast (word_of_int (int (?a mod 2 ^ 32) - int ?b) :: addr) :: word32)
           = word_of_int (int (?a mod 2 ^ 32) - int ?b)"
    by (rule ucast_down_wi) (simp add: is_down)
  have "(int (?a mod 2 ^ 32) - int ?b) mod 2 ^ 32 = (int ?a - int ?b) mod 2 ^ 32"
    by (simp only: zmod_int of_nat_power of_nat_numeral mod_diff_left_eq)
  then have 4: "(word_of_int (int (?a mod 2 ^ 32) - int ?b) :: word32) = word_of_int (int ?a - int ?b)"
    unfolding word_of_int_eq_iff take_bit_eq_mod by simp
  have 5: "int ?a - int ?b = int (8 * (p - h))"
    using assms(2) by simp
  show ?thesis
    unfolding SET_OFFSET_def assms(1) bptr_def 1 2 3 4 5 off_def by simp
qed

lemma COMP_ADDRESS_off:
  assumes "heap_listp s = bptr h" "8 * d < 2 ^ 32"
  shows "COMP_ADDRESS s (off d) = bptr (h + d)"
  using assms(2) unfolding COMP_ADDRESS_def assms(1) off_def ucast_sz [OF assms(2)] bptr_def
  by simp

lemma region_set [simp]:
  "region (set_lo s d v) h e = region s h e" "region (set_hi s d v) h e = region s h e"
  "region (s\<lparr>first_free := p\<rparr>) h e = region s h e"
  by (simp_all add: region_def)

lemma region_bound: "region s h e \<Longrightarrow> 8 * e + 8 < 2 ^ 64"
  using unat_lt64 [of "mem_max_addr s"] unfolding region_def by linarith

lemma region_span: "region s h e \<Longrightarrow> 8 * (e - h) + 8 < 2 ^ 32"
  unfolding region_def by linarith

lemma R_GET_lo:
  "region s h e \<Longrightarrow> h \<le> d \<Longrightarrow> d \<le> e \<Longrightarrow> GET s (of_nat (8 * d)) = Inr (dw_lo s d)"
  by (rule GET_lo) (simp_all add: region_def)

lemma R_GET_hi:
  "region s h e \<Longrightarrow> h \<le> d \<Longrightarrow> d \<le> e \<Longrightarrow> GET s (of_nat (8 * d + 4)) = Inr (dw_hi s d)"
  by (rule GET_hi) (simp_all add: region_def)

lemma R_PUT_lo:
  "region s h e \<Longrightarrow> h \<le> d \<Longrightarrow> d \<le> e \<Longrightarrow> PUT s (of_nat (8 * d)) v = Inr (set_lo s d v)"
  by (rule PUT_lo) (simp_all add: region_def)

lemma R_PUT_hi:
  "region s h e \<Longrightarrow> h \<le> d \<Longrightarrow> d \<le> e \<Longrightarrow> PUT s (of_nat (8 * d + 4)) v = Inr (set_hi s d v)"
  by (rule PUT_hi) (simp_all add: region_def)

lemma bind_res_simps [simp]:
  "bind_res (Inr x) f = f x" "bind_res (Inl e) f = Inl e"
  by (simp_all add: bind_res_def)

lemma tag_size': "tag k al AND - 8 = of_nat (8 * k)"
  using tag_size [of k al] by simp

lemma R_GET_SIZE_hdr:
  assumes "region s h e" "h \<le> x" "x \<le> e" "dw_hi s x = tag k al"
  shows "GET_SIZE s (HDRP (bptr x)) = Inr (of_nat (8 * k))"
  unfolding GET_SIZE_def HDRP_bptr R_GET_hi [OF assms(1-3)] assms(4)
  by (simp add: tag_size' del: of_nat_mult)

lemma R_GET_ALLOC_hdr:
  assumes "region s h e" "h \<le> x" "x \<le> e" "dw_hi s x = tag k al"
  shows "GET_ALLOC s (HDRP (bptr x)) = Inr (if al then 1 else 0)"
  unfolding GET_ALLOC_def HDRP_bptr R_GET_hi [OF assms(1-3)] assms(4)
  by (simp add: tag_alloc)

lemma R_PUT_hdr:
  assumes "region s h e" "h \<le> x" "x \<le> e"
  shows "PUT s (HDRP (bptr x)) v = Inr (set_hi s x v)"
  unfolding HDRP_bptr by (rule R_PUT_hi [OF assms])

lemma R_GET_SIZE_lo:
  assumes "region s h e" "h \<le> d" "d \<le> e" "dw_lo s d = tag k al"
  shows "GET_SIZE s (of_nat (8 * d)) = Inr (of_nat (8 * k))"
  unfolding GET_SIZE_def R_GET_lo [OF assms(1-3)] assms(4)
  by (simp add: tag_size' del: of_nat_mult)

lemma R_GET_ALLOC_lo:
  assumes "region s h e" "h \<le> d" "d \<le> e" "dw_lo s d = tag k al"
  shows "GET_ALLOC s (of_nat (8 * d)) = Inr (if al then 1 else 0)"
  unfolding GET_ALLOC_def R_GET_lo [OF assms(1-3)] assms(4)
  by (simp add: tag_alloc)

lemma R_FTRP:
  assumes "region s h e" "h \<le> x" "x \<le> e" "dw_hi s x = tag k al" "8 * k < 2 ^ 32"
  shows "FTRP s (bptr x) = Inr (of_nat (8 * (x + k)))"
  unfolding FTRP_def R_GET_SIZE_hdr [OF assms(1-4)] bind_res_simps ucast_sz [OF assms(5)]
  by (simp add: bptr_def)

lemma R_NEXT_BLKP:
  assumes "region s h e" "h \<le> x" "x \<le> e" "dw_hi s x = tag k al" "8 * k < 2 ^ 32"
  shows "NEXT_BLKP s (bptr x) = Inr (bptr (x + k))"
proof -
  have "(of_nat (8 * x + 8) :: addr) + of_nat (8 * k) = of_nat (8 * (x + k) + 8)"
    by simp
  then show ?thesis
    using R_GET_SIZE_hdr [OF assms(1-4)]
    unfolding NEXT_BLKP_def HDRP_def
    by (simp add: ucast_sz [OF assms(5)] bptr_def del: of_nat_mult of_nat_add)
qed

lemma R_PREV_BLKP:
  assumes "region s h e" "h \<le> x" "x \<le> e" "dw_lo s x = tag k al" "8 * k < 2 ^ 32" "k \<le> x"
  shows "PREV_BLKP s (bptr x) = Inr (bptr (x - k))"
proof -
  have "(of_nat (8 * x + 8) :: addr) - of_nat (8 * k) = of_nat (8 * (x - k) + 8)"
    using assms(6) by (simp add: of_nat_diff algebra_simps)
  then show ?thesis
    using R_GET_SIZE_lo [OF assms(1-4)]
    unfolding PREV_BLKP_def bptr_sub8
    by (simp add: ucast_sz [OF assms(5)] bptr_def del: of_nat_mult of_nat_add)
qed

lemma R_GET_PRED:
  assumes "region s h e" "h \<le> x" "x < e" "dw_lo s (Suc x) = off (p - h)" "h \<le> p" "p \<le> e"
  shows "GET_PRED s (bptr x) = Inr (bptr p)"
proof -
  have r: "heap_listp s = bptr h" using assms(1) by (simp add: region_def)
  have b: "8 * (p - h) < 2 ^ 32" using region_span [OF assms(1)] assms(5,6) by linarith
  have "GET s (bptr x) = Inr (dw_lo s (Suc x))"
    unfolding bptr_lo using assms by (intro R_GET_lo) auto
  then show ?thesis
    using assms(5) by (simp add: GET_PRED_def assms(4) COMP_ADDRESS_off [OF r b] del: One_nat_def)
qed

lemma R_GET_SUCC:
  assumes "region s h e" "h \<le> x" "x < e" "dw_hi s (Suc x) = off (p - h)" "h \<le> p" "p \<le> e"
  shows "GET_SUCC s (bptr x) = Inr (bptr p)"
proof -
  have r: "heap_listp s = bptr h" using assms(1) by (simp add: region_def)
  have b: "8 * (p - h) < 2 ^ 32" using region_span [OF assms(1)] assms(5,6) by linarith
  have "GET s (bptr x + 4) = Inr (dw_hi s (Suc x))"
    unfolding bptr_add4 using assms by (intro R_GET_hi) auto
  then show ?thesis
    using assms(5) by (simp add: GET_SUCC_def assms(4) COMP_ADDRESS_off [OF r b])
qed

lemma R_SET_PRED:
  assumes "region s h e" "h \<le> x" "x < e" "h \<le> p"
  shows "SET_PRED s (bptr x) (bptr p) = Inr (set_lo s (Suc x) (off (p - h)))"
proof -
  have r: "heap_listp s = bptr h" using assms(1) by (simp add: region_def)
  show ?thesis
    unfolding SET_PRED_def SET_OFFSET_bptr [OF r assms(4)]
    unfolding bptr_lo
    using assms by (intro R_PUT_lo) auto
qed

lemma R_SET_SUCC:
  assumes "region s h e" "h \<le> x" "x < e" "h \<le> p"
  shows "SET_SUCC s (bptr x) (bptr p) = Inr (set_hi s (Suc x) (off (p - h)))"
proof -
  have r: "heap_listp s = bptr h" using assms(1) by (simp add: region_def)
  show ?thesis
    unfolding SET_SUCC_def SET_OFFSET_bptr [OF r assms(4)]
    unfolding bptr_add4
    using assms by (intro R_PUT_hi) auto
qed

section \<open>Block layouts and doubly linked lists\<close>

lemma total_simps [simp]:
  "total [] = 0" "total ((k, al) # bl) = k + total bl" "total (xs @ ys) = total xs + total ys"
  by (simp_all add: total_def)

lemma blocks_append: "blocks a (xs @ ys) = blocks a xs @ blocks (a + total xs) ys"
  by (induction xs arbitrary: a) (auto simp: add.assoc)

lemma blocks_bounds: "(y, k, al) \<in> set (blocks a bl) \<Longrightarrow> a \<le> y \<and> y + k \<le> a + total bl"
  by (induction bl arbitrary: a) fastforce+

lemma blocks_apart:
  "(y, k, al) \<in> set (blocks a bl) \<Longrightarrow> (y', k', al') \<in> set (blocks a bl) \<Longrightarrow>
   (y, k, al) = (y', k', al') \<or> y + k \<le> y' \<or> y' + k' \<le> y"
proof (induction bl arbitrary: a)
  case Nil then show ?case by simp
next
  case (Cons b bl)
  obtain k0 al0 where b: "b = (k0, al0)" by (cases b)
  show ?case
    using Cons.prems Cons.IH [of "a + k0"] blocks_bounds [of _ _ _ "a + k0" bl]
    unfolding b by (auto; blast)
qed

lemma blocks_split:
  "(y, k, al) \<in> set (blocks a bl) \<Longrightarrow> \<exists>xs ys. bl = xs @ (k, al) # ys \<and> y = a + total xs"
proof (induction bl arbitrary: a)
  case Nil then show ?case by simp
next
  case (Cons b bl)
  obtain k0 al0 where b: "b = (k0, al0)" by (cases b)
  show ?case
  proof (cases "(y, k, al) = (a, k0, al0)")
    case True
    then have "b # bl = [] @ (k, al) # bl \<and> y = a + total []" by (simp add: b)
    then show ?thesis by blast
  next
    case False
    then have "(y, k, al) \<in> set (blocks (a + k0) bl)" using Cons.prems by (auto simp: b)
    from Cons.IH [OF this] obtain xs ys where "bl = xs @ (k, al) # ys" "y = a + k0 + total xs"
      by blast
    then have "b # bl = (b # xs) @ (k, al) # ys \<and> y = a + total (b # xs)" by (simp add: b)
    then show ?thesis by blast
  qed
qed

lemma frees_iff: "y \<in> set (frees a bl) \<longleftrightarrow> (\<exists>k. (y, k, False) \<in> set (blocks a bl))"
  by (force simp: frees_def)

lemma frees_simps [simp]:
  "frees a [] = []"
  "frees a ((k, al) # bl) = (if al then frees (a + k) bl else a # frees (a + k) bl)"
  "frees a (xs @ ys) = frees a xs @ frees (a + total xs) ys"
  by (simp_all add: frees_def blocks_append)

lemma seg_Nil [simp]: "seg s a []"
  by (simp add: seg_def)

lemma seg_Cons [simp]:
  "seg s a ((k, al) # bl) =
     (3 \<le> k \<and> dw_hi s a = tag k al \<and> dw_lo s (a + k) = tag k al \<and> seg s (a + k) bl)"
  by (auto simp: seg_def)

lemma seg_append [simp]: "seg s a (xs @ ys) = (seg s a xs \<and> seg s (a + total xs) ys)"
  by (simp add: seg_def blocks_append ball_Un)

lemma seg_min: "seg s a bl \<Longrightarrow> (y, k, al) \<in> set (blocks a bl) \<Longrightarrow> 3 \<le> k"
  by (auto simp: seg_def)

lemma seg_tags:
  "seg s a bl \<Longrightarrow> (y, k, al) \<in> set (blocks a bl) \<Longrightarrow>
   dw_hi s y = tag k al \<and> dw_lo s (y + k) = tag k al"
  by (auto simp: seg_def)

lemma dll_append:
  "dll s h p (us @ vs) q = (dll s h p us (hd (vs @ [q])) \<and> dll s h (last (p # us)) vs q)"
  by (induction us arbitrary: p) (auto simp: hd_append)

lemma dll_set_lo: "(\<And>x. x \<in> set xs \<Longrightarrow> Suc x \<noteq> d) \<Longrightarrow> dll (set_lo s d v) h p xs q = dll s h p xs q"
  by (induction xs arbitrary: p) auto

lemma dll_set_hi: "(\<And>x. x \<in> set xs \<Longrightarrow> Suc x \<noteq> d) \<Longrightarrow> dll (set_hi s d v) h p xs q = dll s h p xs q"
  by (induction xs arbitrary: p) auto

lemma dll_set_lo_node [simp]: "z \<notin> set xs \<Longrightarrow> dll (set_lo s (Suc z) v) h p xs q = dll s h p xs q"
  by (rule dll_set_lo) auto

lemma dll_set_hi_node [simp]: "z \<notin> set xs \<Longrightarrow> dll (set_hi s (Suc z) v) h p xs q = dll s h p xs q"
  by (rule dll_set_hi) auto

lemma dll_first_free [simp]: "dll (s\<lparr>first_free := f\<rparr>) h p xs q = dll s h p xs q"
  by (induction xs arbitrary: p) auto

lemma seg_first_free [simp]: "seg (s\<lparr>first_free := f\<rparr>) a bl = seg s a bl"
  by (simp add: seg_def)

lemma heap_ok_alt:
  "heap_ok s h bs fl \<longleftrightarrow> tags_ok s h bs \<and> list_ok s h fl \<and> set fl = set (frees (Suc h) bs)"
  by (auto simp: heap_ok_def tags_ok_def list_ok_def)

lemma free_block:
  assumes "tags_ok s h bs" "y \<in> set (frees (Suc h) bs)"
  obtains k where "(y, k, False) \<in> set (blocks (Suc h) bs)" "3 \<le> k" "Suc h \<le> y"
    "y + k \<le> Suc (h + total bs)"
  using assms blocks_bounds [of y _ False "Suc h" bs]
  by (auto simp: frees_iff tags_ok_def dest: seg_min)

lemma tags_ok_bound: "tags_ok s h bs \<Longrightarrow> 8 * (Suc (h + total bs)) + 8 < 2 ^ 64"
  by (auto simp: tags_ok_def dest: region_bound)

lemma tags_ok_set_lo_link:
  assumes "tags_ok s h bs" "y \<in> set (frees (Suc h) bs)"
  shows "tags_ok (set_lo s (Suc y) v) h bs"
proof -
  from free_block [OF assms] obtain k where
    k: "(y, k, False) \<in> set (blocks (Suc h) bs)" "3 \<le> k" "Suc h \<le> y" by metis
  have "dw_lo (set_lo s (Suc y) v) (y' + k') = dw_lo s (y' + k')"
    if "(y', k', al') \<in> set (blocks (Suc h) bs)" for y' k' al'
    using blocks_apart [OF k(1) that] k(2) by (intro lo_set_lo_other) auto
  then show ?thesis
    using assms(1) k(3) by (auto simp: tags_ok_def seg_def)
qed

lemma tags_ok_set_hi_link:
  assumes "tags_ok s h bs" "y \<in> set (frees (Suc h) bs)"
  shows "tags_ok (set_hi s (Suc y) v) h bs"
proof -
  from free_block [OF assms] obtain k where
    k: "(y, k, False) \<in> set (blocks (Suc h) bs)" "3 \<le> k" "Suc h \<le> y"
       "y + k \<le> Suc (h + total bs)" by metis
  have "dw_hi (set_hi s (Suc y) v) y' = dw_hi s y'"
    if "(y', k', al') \<in> set (blocks (Suc h) bs)" for y' k' al'
    using blocks_apart [OF k(1) that] k(2) seg_min [OF _ that] assms(1)
    by (intro hi_set_hi_other) (auto simp: tags_ok_def)
  then show ?thesis
    using assms(1) k(2,3,4) by (auto simp: tags_ok_def seg_def)
qed

lemma tags_ok_first_free [simp]: "tags_ok (s\<lparr>first_free := f\<rparr>) h bs = tags_ok s h bs"
  by (simp add: tags_ok_def)

section \<open>Adding a block to the free list\<close>

lemma node_bounds:
  assumes "tags_ok s h bs" "y \<in> set (frees (Suc h) bs)"
  shows "h < y \<and> y + 3 \<le> Suc (h + total bs) \<and> Suc y < 2 ^ 61"
proof -
  from free_block [OF assms] obtain k where
    "3 \<le> k" "Suc h \<le> y" "y + k \<le> Suc (h + total bs)" by metis
  then show ?thesis using tags_ok_bound [OF assms(1)] by auto
qed

lemma tags_ok_region: "tags_ok s h bs \<Longrightarrow> region s h (Suc (h + total bs))"
  by (simp add: tags_ok_def)

lemma tags_ok_heap_listp: "tags_ok s h bs \<Longrightarrow> heap_listp s = bptr h"
  by (simp add: tags_ok_def region_def)

lemma node_ptr_neq:
  assumes "tags_ok s h bs" "y \<in> set (frees (Suc h) bs)"
  shows "bptr y \<noteq> bptr h" "bptr h \<noteq> bptr y"
  using node_bounds [OF assms] by (simp_all add: bptr_eq)

lemma freelist_add_ok:
  assumes t: "tags_ok s h bs" and l: "list_ok s h fl"
    and sub: "set fl \<subseteq> set (frees (Suc h) bs)"
    and x: "x \<in> set (frees (Suc h) bs)" "x \<notin> set fl"
  shows "\<exists>s'. freelist_add s (bptr x) = Inr s' \<and> tags_ok s' h bs \<and> list_ok s' h (x # fl)"
proof -
  let ?e = "Suc (h + total bs)"
  let ?f = "hd (fl @ [h])"
  let ?s1 = "set_lo s (Suc x) (off (h - h))"
  let ?s2 = "set_hi ?s1 (Suc x) (off (?f - h))"
  let ?s3 = "if fl = [] then ?s2 else set_lo ?s2 (Suc ?f) (off (x - h))"
  have r: "region s h ?e" by (rule tags_ok_region [OF t])
  have hl: "heap_listp s = bptr h" by (rule tags_ok_heap_listp [OF t])
  have ff: "first_free s = bptr ?f" using l by (simp add: list_ok_def)
  have xb: "h < x" "x + 3 \<le> ?e" "Suc x < 2 ^ 61" using node_bounds [OF t x(1)] by auto
  have fb: "h < ?f \<and> ?f + 3 \<le> ?e \<and> Suc ?f < 2 ^ 61 \<and> ?f \<in> set (frees (Suc h) bs) \<and> ?f \<noteq> x"
    if "fl \<noteq> []"
  proof -
    have "?f \<in> set fl" using that by (cases fl) auto
    then show ?thesis using node_bounds [OF t, of ?f] sub x(2) by auto
  qed
  have r1: "region ?s1 h ?e" and r2: "region ?s2 h ?e" using r by simp_all
  have 1: "SET_PRED s (bptr x) (heap_listp s) = Inr ?s1"
    unfolding hl using xb by (intro R_SET_PRED [OF r]) auto
  have "SET_SUCC ?s1 (bptr x) (bptr ?f) = Inr ?s2"
    using xb fb by (intro R_SET_SUCC [OF r1]) (cases "fl = []"; auto)+
  then have 2: "SET_SUCC ?s1 (bptr x) (first_free ?s1) = Inr ?s2"
    by (simp add: ff)
  have ne: "(first_free ?s2 \<noteq> heap_listp ?s2) = (fl \<noteq> [])"
    using fb by (cases "fl = []") (auto simp: ff hl bptr_eq)
  have "SET_PRED ?s2 (bptr ?f) (bptr x) = Inr (set_lo ?s2 (Suc ?f) (off (x - h)))" if "fl \<noteq> []"
    using xb fb [OF that] by (intro R_SET_PRED [OF r2]) auto
  then have 3: "fl \<noteq> [] \<Longrightarrow> SET_PRED ?s2 (first_free ?s2) (bptr x) = Inr (set_lo ?s2 (Suc ?f) (off (x - h)))"
    by (simp add: ff)
  have run: "freelist_add s (bptr x) = Inr (?s3\<lparr>first_free := bptr x\<rparr>)"
    unfolding freelist_add_def 1 bind_res_simps 2 ne using 3 by (cases "fl = []") auto
  have t': "tags_ok (?s3\<lparr>first_free := bptr x\<rparr>) h bs"
    using fb by (auto intro!: tags_ok_set_lo_link tags_ok_set_hi_link t x)
  have l': "list_ok (?s3\<lparr>first_free := bptr x\<rparr>) h (x # fl)"
  proof (cases fl)
    case Nil
    then show ?thesis using xb by (simp add: list_ok_def)
  next
    case (Cons f fl')
    have d: "dll s h h (f # fl') h" "distinct (f # fl')" using l Cons by (simp_all add: list_ok_def)
    have nx: "\<And>z. z \<in> set fl' \<Longrightarrow> Suc z \<noteq> Suc x" "\<And>z. z \<in> set fl' \<Longrightarrow> Suc z \<noteq> Suc f"
      using x(2) d(2) Cons by auto
    show ?thesis
      using xb fb d x(2) Cons nx
      by (simp add: list_ok_def dll_set_lo dll_set_hi)
  qed
  show ?thesis using run t' l' by blast
qed

section \<open>Unlinking a node: the relink step of coalesce\<close>

lemma dll_snoc:
  "dll s h p0 (us @ [p]) q =
     (dll s h p0 us p \<and> dw_lo s (Suc p) = off (last (p0 # us) - h) \<and> dw_hi s (Suc p) = off (q - h))"
  by (simp add: dll_append)

lemma dll_unlink:
  assumes d: "dll s h p0 (us @ [p] @ y # vs) q"
    and dist: "distinct (us @ [p] @ y # vs)"
    and bnd: "\<And>z. z \<in> set (us @ [p] @ y # vs) \<Longrightarrow> Suc z < 2 ^ 61"
  shows "dll (if vs = [] then set_hi s (Suc p) (off (q - h))
              else set_lo (set_hi s (Suc p) (off (hd vs - h))) (Suc (hd vs)) (off (p - h)))
           h p0 (us @ [p] @ vs) q"
proof (cases vs)
  case Nil
  have "dll (set_hi s (Suc p) (off (q - h))) h p0 us p = dll s h p0 us p"
    using dist by simp
  then show ?thesis
    using d bnd [of p] by (simp add: Nil dll_append)
next
  case (Cons n vs')
  let ?s' = "set_lo (set_hi s (Suc p) (off (n - h))) (Suc n) (off (p - h))"
  have 1: "dll ?s' h p0 us p = dll s h p0 us p"
    using dist Cons by simp
  have 2: "dll ?s' h n vs' q = dll s h n vs' q"
    using dist Cons by simp
  have np: "n \<noteq> p" using dist Cons by auto
  show ?thesis
    using d bnd [of p] bnd [of n] np 1 2
    by (simp add: Cons dll_append)
qed

lemma dll_fields:
  "dll s h p0 (us @ z # vs) q \<Longrightarrow>
   dw_lo s (Suc z) = off (last (p0 # us) - h) \<and> dw_hi s (Suc z) = off (hd (vs @ [q]) - h)"
  by (simp add: dll_append)

lemma unlink_exec:
  assumes r: "region s h e" and p: "h < p" "p < e" and n: "h \<le> n" "n < e"
  shows "bind_res (SET_SUCC s (bptr p) (bptr n))
           (\<lambda>s1. if bptr n \<noteq> heap_listp s1 then SET_PRED s1 (bptr n) (bptr p) else Inr s1)
         = Inr (unlinked s h p n)"
proof -
  let ?s1 = "set_hi s (Suc p) (off (n - h))"
  have r1: "region ?s1 h e" using r by simp
  have b: "8 * e + 8 < 2 ^ 64" by (rule region_bound [OF r])
  have 1: "SET_SUCC s (bptr p) (bptr n) = Inr ?s1"
    using p n by (intro R_SET_SUCC [OF r]) auto
  have 2: "SET_PRED ?s1 (bptr n) (bptr p) = Inr (set_lo ?s1 (Suc n) (off (p - h)))"
    using p n by (intro R_SET_PRED [OF r1]) auto
  have 3: "(bptr n = bptr h) = (n = h)"
    using b n p by (intro bptr_eq) auto
  have hl: "heap_listp s = bptr h" using r by (simp add: region_def)
  show ?thesis
    unfolding 1 bind_res_simps unlinked_def using 2 3 by (simp add: hl)
qed

lemma relink_next_ok:
  assumes t: "tags_ok s h bs" and l: "list_ok s h (x # rest)"
    and sub: "set (x # rest) \<subseteq> set (frees (Suc h) bs)"
    and blk: "(x, k, False) \<in> set (blocks (Suc h) bs)"
    and N: "x + k \<in> set rest"
  shows "\<exists>s'. relink s (bptr x) False = Inr s' \<and> tags_ok s' h bs \<and>
              list_ok s' h (x # remove1 (x + k) rest)"
proof -
  let ?e = "Suc (h + total bs)" and ?N = "x + k"
  have r: "region s h ?e" by (rule tags_ok_region [OF t])
  have b: "8 * ?e + 8 < 2 ^ 64" by (rule region_bound [OF r])
  have hl: "heap_listp s = bptr h" by (rule tags_ok_heap_listp [OF t])
  have nb: "\<And>z. z \<in> set (x # rest) \<Longrightarrow> h < z \<and> z + 3 \<le> ?e \<and> Suc z < 2 ^ 61"
    using node_bounds [OF t] sub by blast
  have d: "dll s h h (x # rest) h" and dist: "distinct (x # rest)"
    using l by (simp_all add: list_ok_def)
  obtain us vs where rest: "rest = us @ ?N # vs" using N by (meson split_list)
  have Nus: "?N \<notin> set us" "?N \<notin> set vs" using dist rest by auto
  define p where "p = last (x # us)"
  define n where "n = hd (vs @ [h])"
  have pin: "p \<in> set (x # rest)" unfolding p_def rest
    by (metis last_in_set list.distinct(1) set_ConsD list.set_intros(1,2) Un_iff set_append)
  have nin: "n = h \<or> n \<in> set (x # rest)" unfolding n_def rest by (cases vs) auto
  have pb: "h < p" "p < ?e" using nb [OF pin] by auto
  have nb': "h \<le> n" "n < ?e" using nin nb [of n] r by (auto simp: region_def)
  have Nb: "h < ?N" "?N < ?e" using nb [of ?N] N by auto
  have xb: "h < x" "x < ?e" using nb [of x] by auto
  have tg: "dw_hi s x = tag k False" using seg_tags [OF _ blk] t by (simp add: tags_ok_def)
  have k32: "8 * k < 2 ^ 32"
    using region_span [OF r] blocks_bounds [OF blk] by auto
  have nxt: "NEXT_BLKP s (bptr x) = Inr (bptr ?N)"
    using xb by (intro R_NEXT_BLKP [OF r _ _ tg k32]) auto
  have fx: "dw_hi s (Suc x) = off (hd (rest @ [h]) - h)"
    using dll_fields [of s h h "[]" x rest h] d by simp
  have sx: "GET_SUCC s (bptr x) = Inr (bptr (hd (rest @ [h])))"
  proof -
    have "hd (rest @ [h]) \<in> set rest" unfolding rest by (cases us) auto
    then have "h \<le> hd (rest @ [h]) \<and> hd (rest @ [h]) \<le> ?e" using nb [of "hd (rest @ [h])"] by auto
    then show ?thesis using xb by (intro R_GET_SUCC [OF r _ _ fx]) auto
  qed
  have fN: "dw_lo s (Suc ?N) = off (p - h)" "dw_hi s (Suc ?N) = off (n - h)"
    using dll_fields [of s h h "x # us" ?N vs h] d unfolding rest p_def n_def by simp_all
  have sN: "GET_SUCC s (bptr ?N) = Inr (bptr n)"
    using Nb nb' by (intro R_GET_SUCC [OF r _ _ fN(2)]) auto
  have pN: "GET_PRED s (bptr ?N) = Inr (bptr p)"
    using Nb pb by (intro R_GET_PRED [OF r _ _ fN(1)]) auto
  have run: "relink s (bptr x) False = Inr (unlinked s h p n)"
  proof (cases us)
    case Nil
    then have px: "p = x" and "hd (rest @ [h]) = ?N" by (simp_all add: p_def rest)
    then show ?thesis
      using unlink_exec [OF r pb nb', unfolded px]
      by (simp add: relink_def sx nxt are_adjacent_def sN)
  next
    case (Cons u us')
    then have "hd (rest @ [h]) = u" "u \<noteq> ?N" using Nus by (simp_all add: rest)
    moreover have "u \<in> set (x # rest)" using Cons rest by simp
    ultimately have "bptr (hd (rest @ [h])) \<noteq> bptr ?N"
      using nb [of u] Nb b by (subst bptr_eq) auto
    then show ?thesis
      using unlink_exec [OF r pb nb']
      by (simp add: relink_def sx nxt not_adjacent_def sN pN hl)
  qed
  have t': "tags_ok (unlinked s h p n) h bs"
    using pin nin sub by (auto simp: unlinked_def intro!: tags_ok_set_lo_link tags_ok_set_hi_link t)
  obtain us' where us': "x # us = us' @ [p]"
    unfolding p_def by (metis append_butlast_last_id list.distinct(1))
  have d': "dll s h h (us' @ [p] @ ?N # vs) h" using d unfolding rest using us' by (metis append_Cons append_assoc append_Nil)
  have dist': "distinct (us' @ [p] @ ?N # vs)" using dist unfolding rest using us' by (metis append_Cons append_assoc append_Nil)
  have set': "set (us' @ [p] @ ?N # vs) = set (x # rest)" unfolding rest using us' by (metis append_Cons append_assoc append_Nil)
  have "dll (unlinked s h p n) h h (us' @ [p] @ vs) h"
  proof -
    have "n = h \<longleftrightarrow> vs = []"
      using nb [of "hd vs"] unfolding n_def rest by (cases vs) auto
    then have "unlinked s h p n = (if vs = [] then set_hi s (Suc p) (off (h - h))
              else set_lo (set_hi s (Suc p) (off (hd vs - h))) (Suc (hd vs)) (off (p - h)))"
      by (cases vs) (auto simp: unlinked_def n_def)
    then show ?thesis
      using dll_unlink [OF d' dist'] nb unfolding set' by presburger
  qed
  moreover have "us' @ [p] @ vs = x # remove1 ?N rest"
    using us' Nus by (simp add: rest remove1_append)
  ultimately have l': "list_ok (unlinked s h p n) h (x # remove1 ?N rest)"
    using l dist by (simp add: list_ok_def unlinked_def)
  show ?thesis using run t' l' by blast
qed

lemma unlinked_fields [simp]:
  "region (unlinked s h p n) h' e = region s h' e"
  "heap_listp (unlinked s h p n) = heap_listp s"
  "first_free (unlinked s h p n) = first_free s"
  by (simp_all add: unlinked_def)

lemma region_first_free_upd [simp]:
  "heap_listp (s\<lparr>first_free := f\<rparr>) = heap_listp s"
  by simp

lemma relink_prev_ok:
  assumes t: "tags_ok s h bs" and l: "list_ok s h (x # rest)"
    and sub: "set (x # rest) \<subseteq> set (frees (Suc h) bs)"
    and blk: "(P, pk, False) \<in> set (blocks (Suc h) bs)" "P + pk = x"
    and Pin: "P \<in> set rest"
  shows "\<exists>s'. relink s (bptr x) True = Inr s' \<and> tags_ok s' h bs \<and>
              list_ok s' h (P # remove1 P rest)"
proof -
  let ?e = "Suc (h + total bs)"
  have r: "region s h ?e" by (rule tags_ok_region [OF t])
  have b: "8 * ?e + 8 < 2 ^ 64" by (rule region_bound [OF r])
  have hl: "heap_listp s = bptr h" by (rule tags_ok_heap_listp [OF t])
  have nb: "\<And>z. z \<in> set (x # rest) \<Longrightarrow> h < z \<and> z + 3 \<le> ?e \<and> Suc z < 2 ^ 61"
    using node_bounds [OF t] sub by blast
  have fr: "\<And>z. z \<in> set (x # rest) \<Longrightarrow> z \<in> set (frees (Suc h) bs)" using sub by blast
  have d: "dll s h h (x # rest) h" and dist: "distinct (x # rest)"
    using l by (simp_all add: list_ok_def)
  obtain us vs where rest: "rest = us @ P # vs" using Pin by (meson split_list)
  have Pus: "P \<notin> set us" "P \<notin> set vs" "P \<noteq> x" "x \<notin> set us" "x \<notin> set vs"
    using dist rest by auto
  define n where "n = hd (vs @ [h])"
  have nin: "n = h \<or> n \<in> set (x # rest)" unfolding n_def rest by (cases vs) auto
  have nvs: "n = h \<longleftrightarrow> vs = []" using nb [of "hd vs"] unfolding n_def rest by (cases vs) auto
  have nb': "h \<le> n" "n < ?e" using nin nb [of n] r by (auto simp: region_def)
  have Pb: "h < P" "P < ?e" "Suc P < 2 ^ 61" using nb [of P] Pin by auto
  have xb: "h < x" "x < ?e" using nb [of x] by auto
  have tg: "dw_lo s x = tag pk False"
    using seg_tags [OF _ blk(1)] t blk(2) by (simp add: tags_ok_def)
  have k32: "8 * pk < 2 ^ 32"
    using region_span [OF r] blocks_bounds [OF blk(1)] by auto
  have prev: "PREV_BLKP s (bptr x) = Inr (bptr P)"
  proof -
    have "PREV_BLKP s (bptr x) = Inr (bptr (x - pk))"
      using xb blk(2) by (intro R_PREV_BLKP [OF r _ _ tg k32]) auto
    then show ?thesis using blk(2) by auto
  qed
  have fx: "dw_hi s (Suc x) = off (hd (rest @ [h]) - h)"
    using dll_fields [of s h h "[]" x rest h] d by simp
  have hr: "hd (rest @ [h]) \<in> set rest" unfolding rest by (cases us) auto
  have sx: "GET_SUCC s (bptr x) = Inr (bptr (hd (rest @ [h])))"
  proof -
    have "h \<le> hd (rest @ [h]) \<and> hd (rest @ [h]) \<le> ?e" using nb [of "hd (rest @ [h])"] hr by auto
    then show ?thesis using xb by (intro R_GET_SUCC [OF r _ _ fx]) auto
  qed
  have fP: "dw_lo s (Suc P) = off (last (x # us) - h)" "dw_hi s (Suc P) = off (n - h)"
    using dll_fields [of s h h "x # us" P vs h] d unfolding rest n_def by simp_all
  show ?thesis
  proof (cases us)
    case Nil
    let ?s' = "(set_lo s (Suc P) (off (h - h)))\<lparr>first_free := bptr P\<rparr>"
    have hdP: "hd (rest @ [h]) = P" using Nil by (simp add: rest)
    have 1: "SET_PRED s (bptr P) (bptr h) = Inr (set_lo s (Suc P) (off (h - h)))"
      using Pb by (intro R_SET_PRED [OF r]) auto
    have run: "relink s (bptr x) True = Inr ?s'"
      by (simp add: relink_def sx prev hdP are_adjacent_def hl 1)
    have t': "tags_ok ?s' h bs"
      using Pin by (auto intro!: tags_ok_set_lo_link t fr)
    have "dll s h P vs h" using d Nil by (simp add: rest)
    then have l': "list_ok ?s' h (P # remove1 P rest)"
      using dist Pus Pb fP(2) n_def by (simp add: list_ok_def rest Nil)
    show ?thesis using run t' l' by blast
  next
    case (Cons u us')
    define pp where "pp = last us"
    have ppin: "pp \<in> set us" unfolding pp_def using Cons by auto
    have pp: "pp \<noteq> P" "pp \<noteq> x" "last (x # us) = pp" "pp \<in> set (x # rest)"
      using ppin Pus Cons by (auto simp: pp_def rest)
    have ppb: "h < pp" "pp < ?e" using nb [OF pp(4)] by auto
    have uin: "u \<in> set (x # rest)" "u \<noteq> P" "u \<noteq> x" using Cons Pus by (auto simp: rest)
    have ub: "h < u" "u < ?e" "Suc u < 2 ^ 61" using nb [OF uin(1)] by auto
    have hdu: "hd (rest @ [h]) = u" using Cons by (simp add: rest)
    have neq: "bptr u \<noteq> bptr P" using uin ub Pb b by (subst bptr_eq) auto
    let ?s1 = "set_hi s (Suc pp) (off (n - h))"
    let ?s2 = "unlinked s h pp n"
    let ?s3 = "set_lo ?s2 (Suc P) (off (h - h))"
    let ?s4 = "set_hi ?s3 (Suc P) (off (u - h))"
    let ?s5 = "?s4\<lparr>first_free := bptr P\<rparr>"
    let ?s6 = "set_lo ?s5 (Suc u) (off (P - h))"
    have r1: "region ?s1 h ?e" and r2: "region ?s2 h ?e" and r3: "region ?s3 h ?e"
      and r5: "region ?s5 h ?e" using r by simp_all
    have gp: "GET_PRED s (bptr P) = Inr (bptr pp)"
      using Pb ppb fP(1) pp(3) by (intro R_GET_PRED [OF r]) auto
    have gs: "GET_SUCC s (bptr P) = Inr (bptr n)"
      using Pb nb' fP(2) by (intro R_GET_SUCC [OF r]) auto
    have 1: "SET_SUCC s (bptr pp) (bptr n) = Inr ?s1"
      using ppb nb' by (intro R_SET_SUCC [OF r]) auto
    have gs1: "GET_SUCC ?s1 (bptr P) = Inr (bptr n)"
      using Pb nb' fP(2) pp(1) by (intro R_GET_SUCC [OF r1]) auto
    have gp1: "GET_PRED ?s1 (bptr P) = Inr (bptr pp)"
      using Pb ppb fP(1) pp(3) by (intro R_GET_PRED [OF r1]) auto
    have nh: "(bptr n = bptr h) = (n = h)" using b nb' by (intro bptr_eq) auto
    have 2: "(if bptr n \<noteq> heap_listp ?s1
              then bind_res (GET_PRED ?s1 (bptr P)) (\<lambda>pp1. SET_PRED ?s1 (bptr n) pp1)
              else Inr ?s1) = Inr ?s2"
    proof -
      have "SET_PRED ?s1 (bptr n) (bptr pp) = Inr (set_lo ?s1 (Suc n) (off (pp - h)))"
        using nb' ppb by (intro R_SET_PRED [OF r1]) auto
      then show ?thesis by (simp add: hl nh gp1 unlinked_def)
    qed
    have 3: "SET_PRED ?s2 (bptr P) (heap_listp ?s2) = Inr ?s3"
      unfolding unlinked_fields hl using Pb by (intro R_SET_PRED [OF r2]) auto
    obtain us0 where us0: "x # us = us0 @ [pp]"
      unfolding pp_def using Cons by (metis append_butlast_last_id last_ConsR list.distinct(1))
    have d0: "dll s h h (us0 @ [pp] @ P # vs) h" using d unfolding rest using us0
      by (metis append_Cons append_assoc append_Nil)
    have dist0: "distinct (us0 @ [pp] @ P # vs)" using dist unfolding rest using us0
      by (metis append_Cons append_assoc append_Nil)
    have set0: "set (us0 @ [pp] @ P # vs) = set (x # rest)" unfolding rest using us0
      by (metis append_Cons append_assoc append_Nil)
    have d2: "dll ?s2 h h (x # u # us' @ vs) h"
    proof -
      have "?s2 = (if vs = [] then set_hi s (Suc pp) (off (h - h))
              else set_lo (set_hi s (Suc pp) (off (hd vs - h))) (Suc (hd vs)) (off (pp - h)))"
        using nvs by (cases vs) (auto simp: unlinked_def n_def)
      then have "dll ?s2 h h (us0 @ [pp] @ vs) h"
        using dll_unlink [OF d0 dist0] nb unfolding set0 by presburger
      moreover have "us0 @ [pp] @ vs = x # u # us' @ vs"
        using us0 Cons by (metis append_Cons append_assoc append_Nil)
      ultimately show ?thesis by (simp only:)
    qed
    have f2: "dw_hi ?s2 (Suc x) = off (u - h)" using d2 by simp
    have gsx3: "GET_SUCC ?s3 (bptr x) = Inr (bptr u)"
      using xb ub f2 by (intro R_GET_SUCC [OF r3]) auto
    have 4: "SET_SUCC ?s3 (bptr P) (bptr u) = Inr ?s4"
      using Pb ub by (intro R_SET_SUCC [OF r3]) auto
    have gsx5: "GET_SUCC ?s5 (bptr x) = Inr (bptr u)"
      using xb ub f2 Pus(3) by (intro R_GET_SUCC [OF r5]) auto
    have 6: "SET_PRED ?s5 (bptr u) (bptr P) = Inr ?s6"
      using Pb ub by (intro R_SET_PRED [OF r5]) auto
    have 6: "SET_PRED ?s5 (bptr u) (first_free ?s5) = Inr ?s6"
      using 6 by simp
    have neq: "(bptr u = bptr P) = False" using neq by simp
    have run: "relink s (bptr x) True = Inr ?s6"
      unfolding relink_def sx prev hdu bind_res_simps if_True neq if_False not_adjacent_def
        gp gs 1 gs1 2 3 gsx3 4 Let_def gsx5 6 ..
    have t2: "tags_ok ?s2 h bs"
      using pp(4) nin fr by (auto simp: unlinked_def intro!: tags_ok_set_lo_link tags_ok_set_hi_link t)
    have t': "tags_ok ?s6 h bs"
      using Pin uin(1) fr by (auto intro!: tags_ok_set_lo_link tags_ok_set_hi_link t2)
    have Pn: "P \<notin> set (us' @ vs)" "u \<notin> set (us' @ vs)" using dist Cons rest by auto
    have "dll ?s6 h h (P # u # us' @ vs) h"
      using d2 Pn Pb ub uin(2) by simp
    moreover have "P # u # us' @ vs = P # remove1 P rest"
      using Pus Cons by (simp add: rest remove1_append)
    ultimately have l': "list_ok ?s6 h (P # remove1 P rest)"
      using dist by (simp add: list_ok_def)
    show ?thesis using run t' l' by blast
  qed
qed

section \<open>Rewriting boundary tags\<close>

lemma same_region_simps [simp]:
  "same_region s s"
  "same_region s (set_lo s' d v) = same_region s s'"
  "same_region s (set_hi s' d v) = same_region s s'"
  "same_region s (s'\<lparr>first_free := f\<rparr>) = same_region s s'"
  by (simp_all add: same_region_def)

lemma same_region_region: "same_region s s' \<Longrightarrow> region s' h e = region s h e"
  by (simp add: same_region_def region_def)

lemma seg_bounds:
  "seg s a bl \<Longrightarrow> (y, k, al) \<in> set (blocks a bl) \<Longrightarrow> a \<le> y \<and> y + 3 \<le> a + total bl"
  using blocks_bounds [of y k al a bl] seg_min [of s a bl y k al] by linarith

lemma seg_cong:
  assumes "\<And>y k al. (y, k, al) \<in> set (blocks a bl) \<Longrightarrow>
             dw_hi s' y = dw_hi s y \<and> dw_lo s' (y + k) = dw_lo s (y + k)"
  shows "seg s' a bl = seg s a bl"
  using assms by (fastforce simp: seg_def)

lemma seg_outside:
  assumes hi: "\<And>d. a \<le> d \<Longrightarrow> d < a + total bl \<Longrightarrow> dw_hi s' d = dw_hi s d"
    and lo: "\<And>d. a < d \<Longrightarrow> d \<le> a + total bl \<Longrightarrow> dw_lo s' d = dw_lo s d"
    and sg: "seg s a bl"
  shows "seg s' a bl"
proof -
  have "dw_hi s' y = dw_hi s y \<and> dw_lo s' (y + k) = dw_lo s (y + k)"
    if "(y, k, al) \<in> set (blocks a bl)" for y k al
    using seg_bounds [OF sg that] seg_min [OF sg that] blocks_bounds [OF that]
    by (intro conjI hi lo) auto
  then show ?thesis using sg seg_cong [of a bl s' s] by blast
qed

lemma dll_cong:
  assumes "\<And>z. z \<in> set fl \<Longrightarrow>
             dw_lo s' (Suc z) = dw_lo s (Suc z) \<and> dw_hi s' (Suc z) = dw_hi s (Suc z)"
  shows "dll s' h p fl q = dll s h p fl q"
  using assms by (induction fl arbitrary: p) auto

lemma retag_ok:
  assumes t: "tags_ok s h (xs @ mid @ ys)" and mid: "mid \<noteq> []"
    and sr: "same_region s s'"
    and hi: "\<And>d. d \<noteq> Suc (h + total xs) \<Longrightarrow> dw_hi s' d = dw_hi s d"
    and lo: "\<And>d. d \<noteq> Suc (h + total xs) + total mid \<Longrightarrow> dw_lo s' d = dw_lo s d"
    and new: "dw_hi s' (Suc (h + total xs)) = tag (total mid) al"
             "dw_lo s' (Suc (h + total xs) + total mid) = tag (total mid) al"
  shows "tags_ok s' h (xs @ (total mid, al) # ys)"
proof -
  let ?x = "Suc (h + total xs)"
  have sg: "seg s (Suc h) xs" "seg s ?x mid" "seg s (?x + total mid) ys"
    using t by (simp_all add: tags_ok_def add.assoc)
  obtain k0 al0 mid' where m: "mid = (k0, al0) # mid'" using mid by (cases mid) auto
  then have k3: "3 \<le> total mid" using sg(2) by simp
  have 1: "seg s' (Suc h) xs"
    using k3 by (intro seg_outside [OF _ _ sg(1)]) (auto intro: hi lo)
  have 2: "seg s' (?x + total mid) ys"
    using k3 by (intro seg_outside [OF _ _ sg(3)]) (auto intro: hi lo)
  have 3: "dw_hi s' h = dw_hi s h" "dw_lo s' (Suc h) = dw_lo s (Suc h)"
    "dw_hi s' (Suc (h + total (xs @ mid @ ys))) = dw_hi s (Suc (h + total (xs @ mid @ ys)))"
    using k3 by (auto intro!: hi lo)
  show ?thesis
    using t 1 2 3 new k3 same_region_region [OF sr]
    by (simp add: tags_ok_def add.assoc)
qed

lemma retag_ok':
  assumes t: "tags_ok s h (xs @ mid @ ys)" and mid: "mid \<noteq> []"
    and X: "X = Suc (h + total xs)" and K: "K = total mid"
    and sr: "same_region s s'"
    and hi: "\<And>d. d \<noteq> X \<Longrightarrow> dw_hi s' d = dw_hi s d"
    and lo: "\<And>d. d \<noteq> X + K \<Longrightarrow> dw_lo s' d = dw_lo s d"
    and new: "dw_hi s' X = tag K al" "dw_lo s' (X + K) = tag K al"
  shows "tags_ok s' h (xs @ (K, al) # ys)"
  using retag_ok [OF t mid sr, of al] hi lo new unfolding X K by blast

lemma sz_add: "(of_nat (8 * a) :: addr) + of_nat (8 * b) = of_nat (8 * (a + b))"
  by (simp add: algebra_simps)

lemma sz_add32: "(of_nat (8 * a) :: word32) + of_nat (8 * b) = of_nat (8 * (a + b))"
  by (simp add: algebra_simps)

lemma neighbours:
  assumes t: "tags_ok s h (xs @ (k, al) # ys)"
  defines "x \<equiv> Suc (h + total xs)"
  obtains pk pal nk nal where
    "dw_lo s x = tag pk pal" "dw_hi s (x - pk) = tag pk pal" "1 \<le> pk" "h + pk \<le> x"
    "dw_hi s (x + k) = tag nk nal"
    "pal = (xs = [] \<or> snd (last xs))" "nal = (ys = [] \<or> snd (hd ys))"
    "\<not> pal \<Longrightarrow> \<exists>xs'. xs = xs' @ [(pk, False)]"
    "\<not> nal \<Longrightarrow> \<exists>ys'. ys = (nk, False) # ys'"
proof -
  have sg: "seg s (Suc h) xs" "seg s (x + k) ys" and pro: "dw_hi s h = tag 1 True" "dw_lo s (Suc h) = tag 1 True"
    and epi: "dw_hi s (Suc (h + total (xs @ (k, al) # ys))) = tag 0 True"
    using t by (simp_all add: tags_ok_def x_def add.assoc)
  have P: "\<exists>pk pal. dw_lo s x = tag pk pal \<and> dw_hi s (x - pk) = tag pk pal \<and> 1 \<le> pk \<and> h + pk \<le> x
            \<and> pal = (xs = [] \<or> snd (last xs)) \<and> (\<not> pal \<longrightarrow> (\<exists>xs'. xs = xs' @ [(pk, False)]))"
  proof (cases xs rule: rev_cases)
    case Nil
    then show ?thesis using pro by (intro exI [of _ 1] exI [of _ True]) (simp add: x_def)
  next
    case (snoc xs' b)
    obtain pk pal where b: "b = (pk, pal)" by (cases b)
    have "seg s (Suc h + total xs') [(pk, pal)]" using sg(1) by (simp add: snoc b)
    then show ?thesis
      by (intro exI [of _ pk] exI [of _ pal]) (auto simp: x_def snoc b add.assoc)
  qed
  have N: "\<exists>nk nal. dw_hi s (x + k) = tag nk nal \<and> nal = (ys = [] \<or> snd (hd ys))
            \<and> (\<not> nal \<longrightarrow> (\<exists>ys'. ys = (nk, False) # ys'))"
  proof (cases ys)
    case Nil
    then show ?thesis using epi by (intro exI [of _ 0] exI [of _ True]) (simp add: x_def add.assoc)
  next
    case (Cons b ys')
    obtain nk nal where b: "b = (nk, nal)" by (cases b)
    show ?thesis using sg(2) by (intro exI [of _ nk] exI [of _ nal]) (auto simp: Cons b)
  qed
  from P obtain pk pal where p:
    "dw_lo s x = tag pk pal" "dw_hi s (x - pk) = tag pk pal" "1 \<le> pk" "h + pk \<le> x"
    "pal = (xs = [] \<or> snd (last xs))" "\<not> pal \<longrightarrow> (\<exists>xs'. xs = xs' @ [(pk, False)])"
    by blast
  from N obtain nk nal where n:
    "dw_hi s (x + k) = tag nk nal" "nal = (ys = [] \<or> snd (hd ys))"
    "\<not> nal \<longrightarrow> (\<exists>ys'. ys = (nk, False) # ys')"
    by blast
  show ?thesis
    by (rule that [OF p(1-4) n(1) p(5) n(2)]) (use p(6) n(3) in blast)+
qed

lemma all_blocks_tags:
  assumes "tags_ok s h bs" "(y, k, al) \<in> set (all_blocks h bs)"
  shows "dw_hi s y = tag k al \<and> dw_lo s (y + k) = tag k al \<and> 1 \<le> k \<and> h \<le> y \<and>
         y + k \<le> Suc (h + total bs) \<and> 8 * k < 2 ^ 32"
proof -
  have r: "region s h (Suc (h + total bs))" by (rule tags_ok_region [OF assms(1)])
  have "dw_hi s y = tag k al \<and> dw_lo s (y + k) = tag k al \<and> 1 \<le> k \<and> h \<le> y \<and>
         y + k \<le> Suc (h + total bs)"
  proof (cases "(y, k, al) = (h, 1, True)")
    case True
    then show ?thesis using assms(1) by (simp add: tags_ok_def)
  next
    case False
    then have m: "(y, k, al) \<in> set (blocks (Suc h) bs)" using assms(2) by (auto simp: all_blocks_def)
    have sg: "seg s (Suc h) bs" using assms(1) by (simp add: tags_ok_def)
    show ?thesis using seg_tags [OF sg m] seg_min [OF sg m] blocks_bounds [OF m] by auto
  qed
  then show ?thesis using region_span [OF r] by auto
qed

lemma blk_reads:
  assumes t: "tags_ok s h bs" and m: "(y, k, al) \<in> set (all_blocks h bs)"
  shows "GET_SIZE s (HDRP (bptr y)) = Inr (of_nat (8 * k))"
    "GET_ALLOC s (HDRP (bptr y)) = Inr (if al then 1 else 0)"
    "NEXT_BLKP s (bptr y) = Inr (bptr (y + k))"
    "FTRP s (bptr y) = Inr (of_nat (8 * (y + k)))"
    "GET_SIZE s (of_nat (8 * (y + k))) = Inr (of_nat (8 * k))"
    "GET_ALLOC s (of_nat (8 * (y + k))) = Inr (if al then 1 else 0)"
    "PREV_BLKP s (bptr (y + k)) = Inr (bptr y)"
proof -
  let ?e = "Suc (h + total bs)"
  have r: "region s h ?e" by (rule tags_ok_region [OF t])
  note f = all_blocks_tags [OF t m]
  have hi: "dw_hi s y = tag k al" and lo: "dw_lo s (y + k) = tag k al" and k32: "8 * k < 2 ^ 32"
    and b: "h \<le> y" "y \<le> ?e" "h \<le> y + k" "y + k \<le> ?e" "k \<le> y + k"
    using f by auto
  show "GET_SIZE s (HDRP (bptr y)) = Inr (of_nat (8 * k))"
    by (rule R_GET_SIZE_hdr [OF r b(1,2) hi])
  show "GET_ALLOC s (HDRP (bptr y)) = Inr (if al then 1 else 0)"
    by (rule R_GET_ALLOC_hdr [OF r b(1,2) hi])
  show "NEXT_BLKP s (bptr y) = Inr (bptr (y + k))"
    by (rule R_NEXT_BLKP [OF r b(1,2) hi k32])
  show "FTRP s (bptr y) = Inr (of_nat (8 * (y + k)))"
    by (rule R_FTRP [OF r b(1,2) hi k32])
  show "GET_SIZE s (of_nat (8 * (y + k))) = Inr (of_nat (8 * k))"
    by (rule R_GET_SIZE_lo [OF r b(3,4) lo])
  show "GET_ALLOC s (of_nat (8 * (y + k))) = Inr (if al then 1 else 0)"
    by (rule R_GET_ALLOC_lo [OF r b(3,4) lo])
  show "PREV_BLKP s (bptr (y + k)) = Inr (bptr y)"
    using R_PREV_BLKP [OF r b(3,4) lo k32 b(5)] by simp
qed

lemma epilogue_read:
  assumes t: "tags_ok s h bs"
  shows "GET_ALLOC s (HDRP (bptr (Suc (h + total bs)))) = Inr 1"
proof -
  let ?e = "Suc (h + total bs)"
  have r: "region s h ?e" by (rule tags_ok_region [OF t])
  have "dw_hi s ?e = tag 0 True" using t by (simp add: tags_ok_def)
  from R_GET_ALLOC_hdr [OF r _ _ this] show ?thesis by simp
qed

lemma mid_block:
  "(Suc (h + total xs), k, al) \<in> set (all_blocks h (xs @ (k, al) # ys))"
  by (simp add: all_blocks_def blocks_append)

lemma prev_block:
  obtains P pk pal where "(P, pk, pal) \<in> set (all_blocks h (xs @ b # ys))"
    "P + pk = Suc (h + total xs)" "pal = (xs = [] \<or> snd (last xs))"
    "\<not> pal \<Longrightarrow> \<exists>xs'. xs = xs' @ [(pk, False)]"
proof (cases xs rule: rev_cases)
  case Nil
  show ?thesis by (rule that [of h 1 True]) (simp_all add: all_blocks_def Nil)
next
  case (snoc xs' p)
  obtain pk pal where p: "p = (pk, pal)" by (cases p)
  show ?thesis
    by (rule that [of "Suc (h + total xs')" pk pal])
       (auto simp: all_blocks_def snoc p blocks_append)
qed

lemma frees_seg_bounds:
  "seg s a bl \<Longrightarrow> z \<in> set (frees a bl) \<Longrightarrow> a \<le> z \<and> z + 3 \<le> a + total bl"
  using seg_bounds by (auto simp: frees_iff)

lemma word_flags:
  "((1::word32) \<noteq> 0) = True" "((0::word32) \<noteq> 0) = False"
  "((1::word32) = 0) = False" "((0::word32) = 0) = True"
  by simp_all

lemmas exec_simps = bind_res_simps Let_def if_True if_False simp_thms word_flags prod.case

section \<open>The four cases of coalesce\<close>

lemma coalesce_reads:
  assumes t: "tags_ok s h (xs @ (k, False) # ys)"
    and x_def: "x = Suc (h + total xs)"
  obtains P pk where
    "(P, pk, xs = [] \<or> snd (last xs)) \<in> set (all_blocks h (xs @ (k, False) # ys))"
    "P + pk = x"
    "PREV_BLKP s (bptr x) = Inr (bptr P)"
    "FTRP s (bptr P) = Inr (of_nat (8 * x))"
    "GET_ALLOC s (of_nat (8 * x)) = Inr (if xs = [] \<or> snd (last xs) then 1 else 0)"
    "NEXT_BLKP s (bptr x) = Inr (bptr (x + k))"
    "GET_ALLOC s (HDRP (bptr (x + k))) = Inr (if ys = [] \<or> snd (hd ys) then 1 else 0)"
    "GET_SIZE s (HDRP (bptr x)) = Inr (of_nat (8 * k))"
    "\<not> (xs = [] \<or> snd (last xs)) \<Longrightarrow> \<exists>xs'. xs = xs' @ [(pk, False)]"
proof -
  let ?bs = "xs @ (k, False) # ys"
  obtain P pk pal where P: "(P, pk, pal) \<in> set (all_blocks h ?bs)"
    "P + pk = x" "pal = (xs = [] \<or> snd (last xs))"
    "\<not> pal \<Longrightarrow> \<exists>xs'. xs = xs' @ [(pk, False)]"
    unfolding x_def by (rule prev_block [of h xs "(k, False)" ys]) blast
  have X: "(x, k, False) \<in> set (all_blocks h ?bs)" unfolding x_def by (rule mid_block)
  note rp = blk_reads [OF t P(1), unfolded P(2)]
  note rx = blk_reads [OF t X]
  have nx: "GET_ALLOC s (HDRP (bptr (x + k))) = Inr (if ys = [] \<or> snd (hd ys) then 1 else 0)"
  proof (cases ys)
    case Nil
    then show ?thesis using epilogue_read [OF t] by (simp add: x_def add.assoc)
  next
    case (Cons b ys')
    obtain nk nal where b: "b = (nk, nal)" by (cases b)
    have "(x + k, nk, nal) \<in> set (all_blocks h ?bs)"
      by (simp add: all_blocks_def blocks_append Cons b x_def add.assoc)
    from blk_reads(2) [OF t this] show ?thesis by (simp add: Cons b)
  qed
  show ?thesis
    by (rule that [OF P(1) [unfolded P(3)] P(2) rp(7) rp(4) rp(6) [unfolded P(3)] rx(3) nx rx(1)])
       (use P(3,4) in blast)
qed

lemma coalesce_case1:
  assumes t: "tags_ok s h (xs @ (k, False) # ys)" and x: "x = Suc (h + total xs)"
    and pa: "xs = [] \<or> snd (last xs)" and na: "ys = [] \<or> snd (hd ys)"
  shows "coalesce s (bptr x) = Inr (bptr x, s)"
proof -
  from coalesce_reads [OF t x] obtain P pk where rd:
    "PREV_BLKP s (bptr x) = Inr (bptr P)"
    "FTRP s (bptr P) = Inr (of_nat (8 * x))"
    "GET_ALLOC s (of_nat (8 * x)) = Inr (if xs = [] \<or> snd (last xs) then 1 else 0)"
    "NEXT_BLKP s (bptr x) = Inr (bptr (x + k))"
    "GET_ALLOC s (HDRP (bptr (x + k))) = Inr (if ys = [] \<or> snd (hd ys) then 1 else 0)"
    "GET_SIZE s (HDRP (bptr x)) = Inr (of_nat (8 * k))"
    by metis
  have pa': "(xs = [] \<or> snd (last xs)) = True" and na': "(ys = [] \<or> snd (hd ys)) = True"
    using pa na by simp_all
  show ?thesis
    unfolding coalesce_def rd pa' na' exec_simps ..
qed

lemma tag_writes:
  assumes r: "region s h e" and d: "h \<le> d" "d \<le> e"
  shows "PUT s (of_nat (8 * d)) v = Inr (set_lo s d v)"
    "PUT s (HDRP (bptr d)) v = Inr (set_hi s d v)"
  by (rule R_PUT_lo [OF r d], rule R_PUT_hdr [OF r d])

lemma dw_bound: "region s h e \<Longrightarrow> d \<le> e \<Longrightarrow> d < 2 ^ 61"
  using region_bound [of s h e] by simp

lemma coalesce_case2:
  assumes t: "tags_ok s h bs" and bs: "bs = xs @ (k, False) # (nk, False) # ys"
    and x: "x = Suc (h + total xs)"
    and l: "list_ok s h (x # rest)" and eq: "set (x # rest) = set (frees (Suc h) bs)"
    and pa: "xs = [] \<or> snd (last xs)"
  shows "\<exists>s'. coalesce s (bptr x) = Inr (bptr x, s') \<and>
           heap_ok s' h (xs @ (k + nk, False) # ys) (x # remove1 (x + k) rest)"
proof -
  let ?e = "Suc (h + total bs)" and ?N = "x + k" and ?K = "k + nk"
  let ?bs' = "xs @ (?K, False) # ys"
  have r: "region s h ?e" by (rule tags_ok_region [OF t])
  have t0: "tags_ok s h (xs @ (k, False) # (nk, False) # ys)" using t bs by simp
  from coalesce_reads [OF t0 x] obtain P pk where rd:
    "PREV_BLKP s (bptr x) = Inr (bptr P)"
    "FTRP s (bptr P) = Inr (of_nat (8 * x))"
    "GET_ALLOC s (of_nat (8 * x)) = Inr (if xs = [] \<or> snd (last xs) then 1 else 0)"
    "NEXT_BLKP s (bptr x) = Inr (bptr (x + k))"
    "GET_ALLOC s (HDRP (bptr (x + k))) =
       Inr (if (nk, False) # ys = [] \<or> snd (hd ((nk, False) # ys)) then 1 else 0)"
    "GET_SIZE s (HDRP (bptr x)) = Inr (of_nat (8 * k))"
    by metis
  have pa': "(xs = [] \<or> snd (last xs)) = True"
    and na': "((nk, False) # ys = [] \<or> snd (hd ((nk, False) # ys))) = False"
    using pa by simp_all
  have X: "(x, k, False) \<in> set (blocks (Suc h) bs)"
    and N: "(?N, nk, False) \<in> set (blocks (Suc h) bs)"
    by (simp_all add: bs blocks_append x add.assoc)
  have sg: "seg s (Suc h) xs" "seg s (?N + nk) ys" "3 \<le> k" "3 \<le> nk"
    using t by (simp_all add: tags_ok_def bs x add.assoc)
  have tot: "total bs = total xs + k + nk + total ys" by (simp add: bs)
  have fr: "set (frees (Suc h) bs) = set (frees (Suc h) xs) \<union> {x, ?N} \<union> set (frees (?N + nk) ys)"
    by (auto simp: bs x add.assoc)
  have fxs: "\<And>z. z \<in> set (frees (Suc h) xs) \<Longrightarrow> z + 3 \<le> x"
    using frees_seg_bounds [OF sg(1)] by (auto simp: x)
  have fys: "\<And>z. z \<in> set (frees (?N + nk) ys) \<Longrightarrow> ?N + nk \<le> z"
    using frees_seg_bounds [OF sg(2)] by auto
  have "?N \<in> set (x # rest)" unfolding eq fr by simp
  then have Nin: "?N \<in> set rest" using sg(3) by auto
  have sub: "set (x # rest) \<subseteq> set (frees (Suc h) bs)" using eq by simp
  from relink_next_ok [OF t l sub X Nin] obtain s1 where s1:
    "relink s (bptr x) False = Inr s1" "tags_ok s1 h bs" "list_ok s1 h (x # remove1 ?N rest)"
    by blast
  have r1: "region s1 h ?e" by (rule tags_ok_region [OF s1(2)])
  have Xa: "(x, k, False) \<in> set (all_blocks h bs)" and Na: "(?N, nk, False) \<in> set (all_blocks h bs)"
    using X N by (simp_all add: all_blocks_def)
  note rx1 = blk_reads [OF s1(2) Xa]
  note rn1 = blk_reads [OF s1(2) Na]
  have span: "8 * (?e - h) + 8 < 2 ^ 32" by (rule region_span [OF r])
  have k32: "8 * k < 2 ^ 32" "8 * nk < 2 ^ 32" "8 * ?K < 2 ^ 32"
    using span tot by auto
  have xb: "h \<le> x" "x \<le> ?e" "h \<le> x + ?K" "x + ?K \<le> ?e" "x < 2 ^ 61" "x + ?K < 2 ^ 61"
    using tot x dw_bound [OF r, of "x + ?K"] dw_bound [OF r, of x] by auto
  let ?s2 = "set_hi s1 x (tag ?K False)"
  let ?s3 = "set_lo ?s2 (x + ?K) (tag ?K False)"
  have r2: "region ?s2 h ?e" using r1 by simp
  have w1: "PUT s1 (HDRP (bptr x)) (tag ?K False) = Inr ?s2"
    by (rule tag_writes(2) [OF r1 xb(1,2)])
  have f2: "FTRP ?s2 (bptr x) = Inr (of_nat (8 * (x + ?K)))"
    using xb by (intro R_FTRP [OF r2 xb(1,2) _ k32(3)]) simp
  have w2: "PUT ?s2 (of_nat (8 * (x + ?K))) (tag ?K False) = Inr ?s3"
    by (rule tag_writes(1) [OF r2 xb(3,4)])
  have szs: "(ucast (of_nat (8 * k) :: word32) :: addr) + ucast (of_nat (8 * nk) :: word32)
             = of_nat (8 * ?K)"
    unfolding ucast_sz [OF k32(1)] ucast_sz [OF k32(2)] sz_add ..
  have run: "coalesce s (bptr x) = Inr (bptr x, ?s3)"
    unfolding coalesce_def rd pa' na' exec_simps s1(1) rx1(3) rn1(1) szs PACK_tag w1 f2 w2 ..
  have t3: "tags_ok ?s3 h ?bs'"
  proof -
    show ?thesis
    proof (rule retag_ok' [where s = s1 and mid = "[(k, False), (nk, False)]" and X = x])
      show "tags_ok s1 h (xs @ [(k, False), (nk, False)] @ ys)" using s1(2) bs by simp
    qed (use xb x in auto)
  qed
  have nodes: "set (x # remove1 ?N rest) = set (frees (Suc h) ?bs')"
  proof -
    have d: "distinct (x # rest)" using l by (simp add: list_ok_def)
    have "set (x # remove1 ?N rest) = set (x # rest) - {?N}"
      using d sg(3) by auto
    also have "\<dots> = set (frees (Suc h) xs) \<union> {x} \<union> set (frees (?N + nk) ys)"
      unfolding eq fr using fxs fys sg(3,4) by fastforce
    also have "\<dots> = set (frees (Suc h) ?bs')" by (auto simp: x add.assoc)
    finally show ?thesis .
  qed
  have l3: "list_ok ?s3 h (x # remove1 ?N rest)"
  proof -
    have "dll ?s3 h h (x # remove1 ?N rest) h = dll s1 h h (x # remove1 ?N rest) h"
    proof (rule dll_cong)
      fix z assume "z \<in> set (x # remove1 ?N rest)"
      then have "z \<in> set (frees (Suc h) xs) \<union> {x} \<union> set (frees (?N + nk) ys)"
        unfolding nodes by (auto simp: x add.assoc)
      then have "Suc z \<noteq> x \<and> Suc z \<noteq> x + ?K" using fxs [of z] fys [of z] sg(3,4) by auto
      then show "dw_lo ?s3 (Suc z) = dw_lo s1 (Suc z) \<and> dw_hi ?s3 (Suc z) = dw_hi s1 (Suc z)"
        by simp
    qed
    then show ?thesis using s1(3) by (simp add: list_ok_def)
  qed
  have "heap_ok ?s3 h ?bs' (x # remove1 ?N rest)"
    unfolding heap_ok_alt using t3 l3 nodes by blast
  then show ?thesis using run by blast
qed

lemma coalesce_case3:
  assumes t: "tags_ok s h bs" and bs: "bs = xs @ (pk, False) # (k, False) # ys"
    and P: "P = Suc (h + total xs)" and x: "x = P + pk"
    and l: "list_ok s h (x # rest)" and eq: "set (x # rest) = set (frees (Suc h) bs)"
    and na: "ys = [] \<or> snd (hd ys)"
  shows "\<exists>s'. coalesce s (bptr x) = Inr (bptr P, s') \<and>
           heap_ok s' h (xs @ (pk + k, False) # ys) (P # remove1 P rest)"
proof -
  let ?e = "Suc (h + total bs)" and ?K = "k + pk"
  let ?bs' = "xs @ (pk + k, False) # ys"
  have r: "region s h ?e" by (rule tags_ok_region [OF t])
  have t0: "tags_ok s h ((xs @ [(pk, False)]) @ (k, False) # ys)" using t bs by simp
  have x0: "x = Suc (h + total (xs @ [(pk, False)]))" by (simp add: x P)
  from coalesce_reads [OF t0 x0] obtain P' pk' where rd:
    "P' + pk' = x"
    "PREV_BLKP s (bptr x) = Inr (bptr P')"
    "FTRP s (bptr P') = Inr (of_nat (8 * x))"
    "GET_ALLOC s (of_nat (8 * x)) =
       Inr (if xs @ [(pk, False)] = [] \<or> snd (last (xs @ [(pk, False)])) then 1 else 0)"
    "NEXT_BLKP s (bptr x) = Inr (bptr (x + k))"
    "GET_ALLOC s (HDRP (bptr (x + k))) = Inr (if ys = [] \<or> snd (hd ys) then 1 else 0)"
    "GET_SIZE s (HDRP (bptr x)) = Inr (of_nat (8 * k))"
    by metis
  have pa': "(xs @ [(pk, False)] = [] \<or> snd (last (xs @ [(pk, False)]))) = False"
    and na': "(ys = [] \<or> snd (hd ys)) = True"
    using na by simp_all
  have X: "(x, k, False) \<in> set (blocks (Suc h) bs)"
    and Pb: "(P, pk, False) \<in> set (blocks (Suc h) bs)"
    by (simp_all add: bs blocks_append x P add.assoc)
  have sg: "seg s (Suc h) xs" "seg s (x + k) ys" "3 \<le> k" "3 \<le> pk"
    using t by (simp_all add: tags_ok_def bs x P add.assoc)
  have tot: "total bs = total xs + pk + k + total ys" by (simp add: bs)
  have fr: "set (frees (Suc h) bs) = set (frees (Suc h) xs) \<union> {P, x} \<union> set (frees (x + k) ys)"
    by (auto simp: bs x P add.assoc)
  have fxs: "\<And>z. z \<in> set (frees (Suc h) xs) \<Longrightarrow> z + 3 \<le> P"
    using frees_seg_bounds [OF sg(1)] by (auto simp: P)
  have fys: "\<And>z. z \<in> set (frees (x + k) ys) \<Longrightarrow> x + k \<le> z"
    using frees_seg_bounds [OF sg(2)] by auto
  have "P \<in> set (x # rest)" unfolding eq fr by simp
  then have Pin: "P \<in> set rest" using sg(4) x by auto
  have sub: "set (x # rest) \<subseteq> set (frees (Suc h) bs)" using eq by simp
  from relink_prev_ok [OF t l sub Pb x [symmetric] Pin] obtain s1 where s1:
    "relink s (bptr x) True = Inr s1" "tags_ok s1 h bs" "list_ok s1 h (P # remove1 P rest)"
    by blast
  have r1: "region s1 h ?e" by (rule tags_ok_region [OF s1(2)])
  have Xa: "(x, k, False) \<in> set (all_blocks h bs)" and Pa: "(P, pk, False) \<in> set (all_blocks h bs)"
    using X Pb by (simp_all add: all_blocks_def)
  note rx1 = blk_reads [OF s1(2) Xa]
  note rp1 = blk_reads [OF s1(2) Pa, folded x]
  note tx1 = all_blocks_tags [OF s1(2) Xa]
  note tp1 = all_blocks_tags [OF s1(2) Pa, folded x]
  have span: "8 * (?e - h) + 8 < 2 ^ 32" by (rule region_span [OF r])
  have k32: "8 * k < 2 ^ 32" "8 * pk < 2 ^ 32" "8 * ?K < 2 ^ 32"
    using span tot by auto
  have xb: "h \<le> x" "x \<le> ?e" "h \<le> x + k" "x + k \<le> ?e" "h \<le> P" "P \<le> ?e" "pk \<le> x"
    "P < 2 ^ 61" "x + k < 2 ^ 61" "x - pk = P"
    using tot x P dw_bound [OF r, of "x + k"] dw_bound [OF r, of P] by auto
  let ?s2 = "set_lo s1 (x + k) (tag ?K False)"
  let ?s3 = "set_hi ?s2 P (tag ?K False)"
  have r2: "region ?s2 h ?e" and r3: "region ?s3 h ?e" using r1 by simp_all
  have szs: "(ucast (of_nat (8 * k) :: word32) :: addr) + ucast (of_nat (8 * pk) :: word32)
             = of_nat (8 * ?K)"
    unfolding ucast_sz [OF k32(1)] ucast_sz [OF k32(2)] sz_add ..
  have w1: "PUT s1 (of_nat (8 * (x + k))) (tag ?K False) = Inr ?s2"
    by (rule tag_writes(1) [OF r1 xb(3,4)])
  have p2: "PREV_BLKP ?s2 (bptr x) = Inr (bptr P)"
    using R_PREV_BLKP [OF r2 xb(1,2) _ k32(2) xb(7), of False] tp1 sg(3) xb(10) by simp
  have w2: "PUT ?s2 (HDRP (bptr P)) (tag ?K False) = Inr ?s3"
    by (rule tag_writes(2) [OF r2 xb(5,6)])
  have p3: "PREV_BLKP ?s3 (bptr x) = Inr (bptr P)"
    using R_PREV_BLKP [OF r3 xb(1,2) _ k32(2) xb(7), of False] tp1 sg(3) xb(10) by simp
  have run: "coalesce s (bptr x) = Inr (bptr P, ?s3)"
    unfolding coalesce_def rd pa' na' exec_simps s1(1) rp1(7) rp1(1) rx1(4) szs PACK_tag
      w1 p2 w2 p3 ..
  have t3: "tags_ok ?s3 h ?bs'"
  proof -
    have kk: "k + pk = pk + k" by simp
    show ?thesis
    proof (rule retag_ok' [where s = s1 and mid = "[(pk, False), (k, False)]" and X = P])
      show "tags_ok s1 h (xs @ [(pk, False), (k, False)] @ ys)" using s1(2) bs by simp
      show "dw_lo ?s3 (P + (pk + k)) = tag (pk + k) False"
        unfolding kk using xb(9) x by (simp add: add.assoc)
      show "dw_hi ?s3 P = tag (pk + k) False"
        unfolding kk using xb(8) by simp
    qed (use xb x P in \<open>auto simp: add.assoc\<close>)
  qed
  have nodes: "set (P # remove1 P rest) = set (frees (Suc h) ?bs')"
  proof -
    have d: "distinct (x # rest)" using l by (simp add: list_ok_def)
    have "set (P # remove1 P rest) = set (x # rest) - {x}"
      using d Pin by auto
    also have "\<dots> = set (frees (Suc h) xs) \<union> {P} \<union> set (frees (x + k) ys)"
      unfolding eq fr using fxs fys sg(3,4) x by fastforce
    also have "\<dots> = set (frees (Suc h) ?bs')" by (auto simp: x P add.assoc)
    finally show ?thesis .
  qed
  have l3: "list_ok ?s3 h (P # remove1 P rest)"
  proof -
    have "dll ?s3 h h (P # remove1 P rest) h = dll s1 h h (P # remove1 P rest) h"
    proof (rule dll_cong)
      fix z assume "z \<in> set (P # remove1 P rest)"
      then have "z \<in> set (frees (Suc h) xs) \<union> {P} \<union> set (frees (x + k) ys)"
        unfolding nodes by (auto simp: x P add.assoc)
      then have "Suc z \<noteq> P \<and> Suc z \<noteq> x + k" using fxs [of z] fys [of z] sg(3,4) x by auto
      then show "dw_lo ?s3 (Suc z) = dw_lo s1 (Suc z) \<and> dw_hi ?s3 (Suc z) = dw_hi s1 (Suc z)"
        by simp
    qed
    then show ?thesis using s1(3) by (simp add: list_ok_def)
  qed
  have "heap_ok ?s3 h ?bs' (P # remove1 P rest)"
    unfolding heap_ok_alt using t3 l3 nodes by blast
  then show ?thesis using run by blast
qed

lemma coalesce_case4:
  assumes t: "tags_ok s h bs" and bs: "bs = xs @ (pk, False) # (k, False) # (nk, False) # ys"
    and P: "P = Suc (h + total xs)" and x: "x = P + pk"
    and l: "list_ok s h (x # rest)" and eq: "set (x # rest) = set (frees (Suc h) bs)"
  shows "\<exists>s'. coalesce s (bptr x) = Inr (bptr P, s') \<and>
           heap_ok s' h (xs @ (pk + k + nk, False) # ys)
             (P # remove1 P (remove1 (x + k) rest))"
proof -
  let ?e = "Suc (h + total bs)" and ?K = "k + (pk + nk)" and ?N = "x + k"
  let ?bs' = "xs @ (pk + k + nk, False) # ys"
  let ?fl' = "P # remove1 P (remove1 ?N rest)"
  have r: "region s h ?e" by (rule tags_ok_region [OF t])
  have t0: "tags_ok s h ((xs @ [(pk, False)]) @ (k, False) # (nk, False) # ys)" using t bs by simp
  have x0: "x = Suc (h + total (xs @ [(pk, False)]))" by (simp add: x P)
  from coalesce_reads [OF t0 x0] obtain P' pk' where rd:
    "P' + pk' = x"
    "PREV_BLKP s (bptr x) = Inr (bptr P')"
    "FTRP s (bptr P') = Inr (of_nat (8 * x))"
    "GET_ALLOC s (of_nat (8 * x)) =
       Inr (if xs @ [(pk, False)] = [] \<or> snd (last (xs @ [(pk, False)])) then 1 else 0)"
    "NEXT_BLKP s (bptr x) = Inr (bptr (x + k))"
    "GET_ALLOC s (HDRP (bptr (x + k))) =
       Inr (if (nk, False) # ys = [] \<or> snd (hd ((nk, False) # ys)) then 1 else 0)"
    "GET_SIZE s (HDRP (bptr x)) = Inr (of_nat (8 * k))"
    by metis
  have pa': "(xs @ [(pk, False)] = [] \<or> snd (last (xs @ [(pk, False)]))) = False"
    and na': "((nk, False) # ys = [] \<or> snd (hd ((nk, False) # ys))) = False"
    by simp_all
  have X: "(x, k, False) \<in> set (blocks (Suc h) bs)"
    and Pb: "(P, pk, False) \<in> set (blocks (Suc h) bs)"
    and Nb: "(?N, nk, False) \<in> set (blocks (Suc h) bs)"
    by (simp_all add: bs blocks_append x P add.assoc)
  have sg: "seg s (Suc h) xs" "seg s (?N + nk) ys" "3 \<le> k" "3 \<le> pk" "3 \<le> nk"
    using t by (simp_all add: tags_ok_def bs x P add.assoc)
  have tot: "total bs = total xs + pk + k + nk + total ys" by (simp add: bs)
  have fr: "set (frees (Suc h) bs) =
      set (frees (Suc h) xs) \<union> {P, x, ?N} \<union> set (frees (?N + nk) ys)"
    by (auto simp: bs x P add.assoc)
  have fxs: "\<And>z. z \<in> set (frees (Suc h) xs) \<Longrightarrow> z + 3 \<le> P"
    using frees_seg_bounds [OF sg(1)] by (auto simp: P)
  have fys: "\<And>z. z \<in> set (frees (?N + nk) ys) \<Longrightarrow> ?N + nk \<le> z"
    using frees_seg_bounds [OF sg(2)] by auto
  have d: "distinct (x # rest)" using l by (simp add: list_ok_def)
  have "P \<in> set (x # rest)" "?N \<in> set (x # rest)" unfolding eq fr by simp_all
  then have Pin: "P \<in> set rest" and Nin: "?N \<in> set rest" using sg(3,4) x by auto
  have sub: "set (x # rest) \<subseteq> set (frees (Suc h) bs)" using eq by simp
  from relink_next_ok [OF t l sub X Nin] obtain s1 where s1:
    "relink s (bptr x) False = Inr s1" "tags_ok s1 h bs" "list_ok s1 h (x # remove1 ?N rest)"
    by blast
  have sub1: "set (x # remove1 ?N rest) \<subseteq> set (frees (Suc h) bs)"
    using sub set_remove1_subset [of ?N rest] by auto
  have Pin1: "P \<in> set (remove1 ?N rest)" using Pin sg(3,4) x by auto
  from relink_prev_ok [OF s1(2,3) sub1 Pb x [symmetric] Pin1] obtain s2 where s2:
    "relink s1 (bptr x) True = Inr s2" "tags_ok s2 h bs" "list_ok s2 h ?fl'"
    by blast
  have r2: "region s2 h ?e" by (rule tags_ok_region [OF s2(2)])
  have Xa: "(x, k, False) \<in> set (all_blocks h bs)" and Pa: "(P, pk, False) \<in> set (all_blocks h bs)"
    and Na: "(?N, nk, False) \<in> set (all_blocks h bs)"
    using X Pb Nb by (simp_all add: all_blocks_def)
  note rx2 = blk_reads [OF s2(2) Xa]
  note rp2 = blk_reads [OF s2(2) Pa, folded x]
  note rn2 = blk_reads [OF s2(2) Na]
  note tx2 = all_blocks_tags [OF s2(2) Xa]
  note tp2 = all_blocks_tags [OF s2(2) Pa, folded x]
  note tn2 = all_blocks_tags [OF s2(2) Na]
  have span: "8 * (?e - h) + 8 < 2 ^ 32" by (rule region_span [OF r])
  have k32: "8 * k < 2 ^ 32" "8 * pk < 2 ^ 32" "8 * nk < 2 ^ 32" "8 * (pk + nk) < 2 ^ 32"
    "8 * ?K < 2 ^ 32"
    using span tot by auto
  have xb: "h \<le> x" "x \<le> ?e" "h \<le> ?N + nk" "?N + nk \<le> ?e" "h \<le> P" "P \<le> ?e" "pk \<le> x"
    "P < 2 ^ 61" "?N + nk < 2 ^ 61" "x - pk = P" "h \<le> ?N" "?N \<le> ?e"
    using tot x P dw_bound [OF r, of "?N + nk"] dw_bound [OF r, of P] by auto
  let ?s3 = "set_hi s2 P (tag ?K False)"
  let ?s4 = "set_lo ?s3 (?N + nk) (tag ?K False)"
  have r3: "region ?s3 h ?e" and r4: "region ?s4 h ?e" using r2 by simp_all
  have szs: "(ucast (of_nat (8 * k) :: word32) :: addr)
               + ucast ((of_nat (8 * pk) :: word32) + of_nat (8 * nk)) = of_nat (8 * ?K)"
    unfolding sz_add32 ucast_sz [OF k32(1)] ucast_sz [OF k32(4)] sz_add ..
  have w3: "PUT s2 (HDRP (bptr P)) (tag ?K False) = Inr ?s3"
    by (rule tag_writes(2) [OF r2 xb(5,6)])
  have n3: "NEXT_BLKP ?s3 (bptr x) = Inr (bptr ?N)"
    using R_NEXT_BLKP [OF r3 xb(1,2) _ k32(1), of False] tx2 sg(4) x by simp
  have f3: "FTRP ?s3 (bptr ?N) = Inr (of_nat (8 * (?N + nk)))"
    using R_FTRP [OF r3 xb(11,12) _ k32(3), of False] tn2 sg(3,4) x by simp
  have w4: "PUT ?s3 (of_nat (8 * (?N + nk))) (tag ?K False) = Inr ?s4"
    by (rule tag_writes(1) [OF r3 xb(3,4)])
  have p4: "PREV_BLKP ?s4 (bptr x) = Inr (bptr P)"
    using R_PREV_BLKP [OF r4 xb(1,2) _ k32(2) xb(7), of False] tp2 sg(3,5) xb(10) by simp
  have run: "coalesce s (bptr x) = Inr (bptr P, ?s4)"
    unfolding coalesce_def rd pa' na' exec_simps s1(1) s2(1) rp2(7) rp2(1) rx2(3) rn2(4) rn2(5)
      szs PACK_tag w3 n3 f3 w4 p4 ..
  have t4: "tags_ok ?s4 h ?bs'"
  proof -
    have kk: "k + (pk + nk) = pk + k + nk" "P + (pk + k + nk) = ?N + nk"
      using x by simp_all
    show ?thesis
    proof (rule retag_ok' [where s = s2 and mid = "[(pk, False), (k, False), (nk, False)]"
          and X = P])
      show "tags_ok s2 h (xs @ [(pk, False), (k, False), (nk, False)] @ ys)" using s2(2) bs by simp
      show "dw_lo ?s4 (P + (pk + k + nk)) = tag (pk + k + nk) False"
        unfolding kk using xb(9) by simp
      show "dw_hi ?s4 P = tag (pk + k + nk) False"
        unfolding kk using xb(8) by simp
    qed (use xb x P in \<open>auto simp: add.assoc\<close>)
  qed
  have nodes: "set ?fl' = set (frees (Suc h) ?bs')"
  proof -
    have "set ?fl' = set (x # rest) - {x, ?N}"
      using d Pin Nin sg(3,4) x by auto
    also have "\<dots> = set (frees (Suc h) xs) \<union> {P} \<union> set (frees (?N + nk) ys)"
      unfolding eq fr using fxs fys sg(3,4,5) x by fastforce
    also have "\<dots> = set (frees (Suc h) ?bs')" by (auto simp: x P add.assoc)
    finally show ?thesis .
  qed
  have l4: "list_ok ?s4 h ?fl'"
  proof -
    have "dll ?s4 h h ?fl' h = dll s2 h h ?fl' h"
    proof (rule dll_cong)
      fix z assume "z \<in> set ?fl'"
      then have "z \<in> set (frees (Suc h) xs) \<union> {P} \<union> set (frees (?N + nk) ys)"
        unfolding nodes by (auto simp: x P add.assoc)
      then have "Suc z \<noteq> P \<and> Suc z \<noteq> ?N + nk" using fxs [of z] fys [of z] sg(3,4,5) x by auto
      then show "dw_lo ?s4 (Suc z) = dw_lo s2 (Suc z) \<and> dw_hi ?s4 (Suc z) = dw_hi s2 (Suc z)"
        by simp
    qed
    then show ?thesis using s2(3) by (simp add: list_ok_def)
  qed
  have "heap_ok ?s4 h ?bs' ?fl'"
    unfolding heap_ok_alt using t4 l4 nodes by blast
  then show ?thesis using run by blast
qed

lemma naf_Cons: "naf (b # bl) = ((bl = [] \<or> snd b \<or> snd (hd bl)) \<and> naf bl)"
  by (cases bl) auto

lemma naf_append:
  "naf (xs @ ys) = (naf xs \<and> naf ys \<and> (xs = [] \<or> ys = [] \<or> snd (last xs) \<or> snd (hd ys)))"
  by (induction xs) (auto simp: naf_Cons hd_append)

lemma keeps_alloc_refl [simp]: "keeps_alloc h bs bs"
  by (simp add: keeps_alloc_def)

lemma keeps_alloc_trans: "keeps_alloc h a b \<Longrightarrow> keeps_alloc h b c \<Longrightarrow> keeps_alloc h a c"
  by (simp add: keeps_alloc_def)

lemma keeps_alloc_merge:
  "mid \<noteq> [] \<Longrightarrow> \<forall>b \<in> set mid. \<not> snd b \<Longrightarrow>
   keeps_alloc h (xs @ mid @ ys) (xs @ (total mid, al) # ys)"
  by (auto simp: keeps_alloc_def blocks_append add.assoc dest!: blocks_split)

lemma coalesce_ok:
  assumes hk: "heap_ok s h bs (x # rest)" and bs: "bs = xs @ (k, False) # ys"
    and x: "x = Suc (h + total xs)"
  shows "\<exists>s' bs' fl' r K. coalesce s (bptr x) = Inr (bptr r, s') \<and> heap_ok s' h bs' (r # fl') \<and>
           total bs' = total bs \<and> (r, K, False) \<in> set (blocks (Suc h) bs') \<and>
           r \<le> x \<and> x + k \<le> r + K \<and> keeps_alloc h bs bs' \<and>
           (naf (xs @ (k, True) # ys) \<longrightarrow> naf bs')"
proof -
  have t: "tags_ok s h bs" and l: "list_ok s h (x # rest)"
    and eq: "set (x # rest) = set (frees (Suc h) bs)"
    using hk by (simp_all add: heap_ok_alt)
  let ?pa = "xs = [] \<or> snd (last xs)" and ?na = "ys = [] \<or> snd (hd ys)"
  consider (c1) "?pa" "?na" | (c2) "?pa" "\<not> ?na" | (c3) "\<not> ?pa" "?na" | (c4) "\<not> ?pa" "\<not> ?na"
    by blast
  then show ?thesis
  proof cases
    case c1
    have "coalesce s (bptr x) = Inr (bptr x, s)"
      using coalesce_case1 [OF _ x c1] t bs by simp
    moreover have "(x, k, False) \<in> set (blocks (Suc h) bs)"
      by (simp add: bs blocks_append x add.assoc)
    moreover have "naf (xs @ (k, True) # ys) \<longrightarrow> naf bs"
      using c1 by (auto simp: bs naf_append naf_Cons)
    ultimately show ?thesis using hk by (intro exI [of _ s] exI [of _ bs] exI [of _ rest] exI [of _ x] exI [of _ k]) simp
  next
    case c2
    then obtain nk ys' where ys: "ys = (nk, False) # ys'" by (cases ys) auto
    have bs2: "bs = xs @ (k, False) # (nk, False) # ys'" by (simp add: bs ys)
    from coalesce_case2 [OF t bs2 x l eq c2(1)] obtain s' where s':
      "coalesce s (bptr x) = Inr (bptr x, s')"
      "heap_ok s' h (xs @ (k + nk, False) # ys') (x # remove1 (x + k) rest)" by blast
    have "keeps_alloc h bs (xs @ (k + nk, False) # ys')"
      using keeps_alloc_merge [of "[(k, False), (nk, False)]" h xs ys' False] by (simp add: bs2)
    moreover have "naf (xs @ (k, True) # ys) \<longrightarrow> naf (xs @ (k + nk, False) # ys')"
      using c2 by (auto simp: ys naf_append naf_Cons)
    moreover have "(x, k + nk, False) \<in> set (blocks (Suc h) (xs @ (k + nk, False) # ys'))"
      by (simp add: blocks_append x add.assoc)
    ultimately show ?thesis using s'
      by (intro exI [of _ s'] exI [of _ "xs @ (k + nk, False) # ys'"]
          exI [of _ "remove1 (x + k) rest"] exI [of _ x] exI [of _ "k + nk"]) (simp add: bs2)
  next
    case c3
    then obtain xs' pk where xs: "xs = xs' @ [(pk, False)]"
      by (cases xs rule: rev_cases) auto
    define P where "P = Suc (h + total xs')"
    have bs3: "bs = xs' @ (pk, False) # (k, False) # ys" by (simp add: bs xs)
    have xP: "x = P + pk" by (simp add: x xs P_def)
    from coalesce_case3 [OF t bs3 P_def xP l eq c3(2)] obtain s' where s':
      "coalesce s (bptr x) = Inr (bptr P, s')"
      "heap_ok s' h (xs' @ (pk + k, False) # ys) (P # remove1 P rest)" by blast
    have "keeps_alloc h bs (xs' @ (pk + k, False) # ys)"
      using keeps_alloc_merge [of "[(pk, False), (k, False)]" h xs' ys False] by (simp add: bs3)
    moreover have "naf (xs @ (k, True) # ys) \<longrightarrow> naf (xs' @ (pk + k, False) # ys)"
      using c3 by (auto simp: xs naf_append naf_Cons)
    moreover have "(P, pk + k, False) \<in> set (blocks (Suc h) (xs' @ (pk + k, False) # ys))"
      by (simp add: blocks_append P_def add.assoc)
    ultimately show ?thesis using s' xP
      by (intro exI [of _ s'] exI [of _ "xs' @ (pk + k, False) # ys"]
          exI [of _ "remove1 P rest"] exI [of _ P] exI [of _ "pk + k"]) (simp add: bs3)
  next
    case c4
    then obtain nk ys' where ys: "ys = (nk, False) # ys'" by (cases ys) auto
    from c4 obtain xs' pk where xs: "xs = xs' @ [(pk, False)]"
      by (cases xs rule: rev_cases) auto
    define P where "P = Suc (h + total xs')"
    have bs4: "bs = xs' @ (pk, False) # (k, False) # (nk, False) # ys'" by (simp add: bs xs ys)
    have xP: "x = P + pk" by (simp add: x xs P_def)
    from coalesce_case4 [OF t bs4 P_def xP l eq] obtain s' where s':
      "coalesce s (bptr x) = Inr (bptr P, s')"
      "heap_ok s' h (xs' @ (pk + k + nk, False) # ys') (P # remove1 P (remove1 (x + k) rest))"
      by blast
    have "keeps_alloc h bs (xs' @ (pk + k + nk, False) # ys')"
      using keeps_alloc_merge [of "[(pk, False), (k, False), (nk, False)]" h xs' ys' False]
      by (simp add: bs4 add.assoc)
    moreover have "naf (xs @ (k, True) # ys) \<longrightarrow> naf (xs' @ (pk + k + nk, False) # ys')"
      using c4 by (auto simp: xs ys naf_append naf_Cons)
    moreover have "(P, pk + k + nk, False) \<in> set (blocks (Suc h) (xs' @ (pk + k + nk, False) # ys'))"
      by (simp add: blocks_append P_def add.assoc)
    ultimately show ?thesis using s' xP
      by (intro exI [of _ s'] exI [of _ "xs' @ (pk + k + nk, False) # ys'"]
          exI [of _ "remove1 P (remove1 (x + k) rest)"] exI [of _ P] exI [of _ "pk + k + nk"])
        (simp add: bs4)
  qed
qed

section \<open>free\<close>

lemma reseg_ok:
  assumes t: "tags_ok s h (xs @ mid @ ys)" and K: "total mid' = total mid" "1 \<le> total mid"
    and X: "X = Suc (h + total xs)"
    and sr: "same_region s s'"
    and hi: "\<And>d. d < X \<or> X + total mid \<le> d \<Longrightarrow> dw_hi s' d = dw_hi s d"
    and lo: "\<And>d. d \<le> X \<or> X + total mid < d \<Longrightarrow> dw_lo s' d = dw_lo s d"
    and new: "seg s' X mid'"
  shows "tags_ok s' h (xs @ mid' @ ys)"
proof -
  have sg: "seg s (Suc h) xs" "seg s (X + total mid) ys"
    using t by (simp_all add: tags_ok_def add.assoc X)
  have 1: "seg s' (Suc h) xs"
    by (rule seg_outside [OF _ _ sg(1)]) (auto intro: hi lo simp: X)
  have 2: "seg s' (X + total mid) ys"
    using K(2) by (intro seg_outside [OF _ _ sg(2)]) (auto intro: hi lo)
  have 3: "dw_hi s' h = dw_hi s h" "dw_lo s' (Suc h) = dw_lo s (Suc h)"
    "dw_hi s' (Suc (h + total (xs @ mid @ ys))) = dw_hi s (Suc (h + total (xs @ mid @ ys)))"
    using K(2) by (auto intro!: hi lo simp: X)
  show ?thesis
    using t 1 2 3 new K same_region_region [OF sr]
    by (simp add: tags_ok_def add.assoc X)
qed

lemma lazy_init_ok: "tags_ok s h bs \<Longrightarrow> lazy_init s = Inr s"
  using bptr_nz [of h] tags_ok_bound [of s h bs]
  by (simp add: lazy_init_def tags_ok_heap_listp)

lemma free_ok:
  assumes hk: "heap_ok s h bs fl" and m: "(x, k, True) \<in> set (blocks (Suc h) bs)"
  shows "\<exists>s' bs' fl'. free s (bptr x) = Inr s' \<and> heap_ok s' h bs' fl' \<and> total bs' = total bs \<and>
           (naf bs \<longrightarrow> naf bs') \<and>
           (\<forall>y j. (y, j, True) \<in> set (blocks (Suc h) bs) \<and> y \<noteq> x \<longrightarrow>
                  (y, j, True) \<in> set (blocks (Suc h) bs'))"
proof -
  let ?e = "Suc (h + total bs)"
  have t: "tags_ok s h bs" and l: "list_ok s h fl"
    and eq: "set fl = set (frees (Suc h) bs)"
    using hk by (simp_all add: heap_ok_alt)
  have r: "region s h ?e" by (rule tags_ok_region [OF t])
  from blocks_split [OF m] obtain xs ys where bs: "bs = xs @ (k, True) # ys"
    and x: "x = Suc (h + total xs)" by auto
  let ?bs2 = "xs @ (k, False) # ys"
  have ma: "(x, k, True) \<in> set (all_blocks h bs)" using m by (simp add: all_blocks_def)
  note rx = blk_reads [OF t ma]
  note tx = all_blocks_tags [OF t ma]
  have sg: "seg s (Suc h) xs" "seg s (x + k) ys" "3 \<le> k"
    using t by (simp_all add: tags_ok_def bs x add.assoc)
  have k32: "8 * k < 2 ^ 32" using tx by simp
  have xb: "h \<le> x" "x \<le> ?e" "h \<le> x + k" "x + k \<le> ?e" "x < 2 ^ 61" "x + k < 2 ^ 61"
    using tx dw_bound [OF r, of "x + k"] dw_bound [OF r, of x] by auto
  have nz: "(bptr x = 0) = False" using bptr_nz [of x] region_bound [OF r] xb by simp
  let ?s1 = "set_hi s x (tag k False)"
  let ?s2 = "set_lo ?s1 (x + k) (tag k False)"
  have r1: "region ?s1 h ?e" using r by simp
  have w1: "PUT s (HDRP (bptr x)) (tag k False) = Inr ?s1"
    by (rule tag_writes(2) [OF r xb(1,2)])
  have f1: "FTRP ?s1 (bptr x) = Inr (of_nat (8 * (x + k)))"
    using xb by (intro R_FTRP [OF r1 xb(1,2) _ k32]) simp
  have w2: "PUT ?s1 (of_nat (8 * (x + k))) (tag k False) = Inr ?s2"
    by (rule tag_writes(1) [OF r1 xb(3,4)])
  have t2: "tags_ok ?s2 h ?bs2"
  proof (rule retag_ok' [where s = s and mid = "[(k, True)]" and X = x])
    show "tags_ok s h (xs @ [(k, True)] @ ys)" using t bs by simp
  qed (use xb x in auto)
  have fxs: "\<And>z. z \<in> set (frees (Suc h) xs) \<Longrightarrow> z + 3 \<le> x"
    using frees_seg_bounds [OF sg(1)] by (auto simp: x)
  have fys: "\<And>z. z \<in> set (frees (x + k) ys) \<Longrightarrow> x + k \<le> z"
    using frees_seg_bounds [OF sg(2)] by auto
  have fl: "set fl = set (frees (Suc h) xs) \<union> set (frees (x + k) ys)"
    unfolding eq by (auto simp: bs x add.assoc)
  have l2: "list_ok ?s2 h fl"
  proof -
    have "dll ?s2 h h fl h = dll s h h fl h"
    proof (rule dll_cong)
      fix z assume "z \<in> set fl"
      then have "Suc z \<noteq> x \<and> Suc z \<noteq> x + k" using fl fxs [of z] fys [of z] sg(3) by auto
      then show "dw_lo ?s2 (Suc z) = dw_lo s (Suc z) \<and> dw_hi ?s2 (Suc z) = dw_hi s (Suc z)"
        by simp
    qed
    then show ?thesis using l by (simp add: list_ok_def)
  qed
  have fr2: "set (frees (Suc h) ?bs2) = insert x (set fl)"
    unfolding fl by (auto simp: x add.assoc)
  have xn: "x \<notin> set fl" using fl fxs [of x] fys [of x] sg(3) by auto
  from freelist_add_ok [OF t2 l2 _ _ xn] fr2 obtain s3 where s3:
    "freelist_add ?s2 (bptr x) = Inr s3" "tags_ok s3 h ?bs2" "list_ok s3 h (x # fl)"
    by auto
  have h3: "heap_ok s3 h ?bs2 (x # fl)"
    unfolding heap_ok_alt using s3 fr2 by simp
  from coalesce_ok [OF h3 refl x] obtain s4 bs' fl' r' K where s4:
    "coalesce s3 (bptr x) = Inr (bptr r', s4)" "heap_ok s4 h bs' (r' # fl')"
    "total bs' = total ?bs2" "keeps_alloc h ?bs2 bs'" "naf (xs @ (k, True) # ys) \<longrightarrow> naf bs'"
    by blast
  have szu: "(ucast (of_nat (8 * k) :: word32) :: addr) = of_nat (8 * k)" by (rule ucast_sz [OF k32])
  have run: "free s (bptr x) = Inr s4"
    unfolding free_def nz if_False rx(1) exec_simps szu lazy_init_ok [OF t] PACK_tag w1 f1 w2
      s3(1) s4(1) ..
  have ka: "\<forall>y j. (y, j, True) \<in> set (blocks (Suc h) bs) \<and> y \<noteq> x \<longrightarrow>
                  (y, j, True) \<in> set (blocks (Suc h) bs')"
  proof (intro allI impI)
    fix y j assume "(y, j, True) \<in> set (blocks (Suc h) bs) \<and> y \<noteq> x"
    then have "(y, j, True) \<in> set (blocks (Suc h) ?bs2)"
      by (auto simp: bs blocks_append x add.assoc)
    then show "(y, j, True) \<in> set (blocks (Suc h) bs')"
      using s4(4) by (simp add: keeps_alloc_def)
  qed
  show ?thesis
    using run s4(2,3,5) ka by (intro exI [of _ s4] exI [of _ bs'] exI [of _ "r' # fl'"]) (simp add: bs)
qed

section \<open>extend_heap\<close>

lemma brk_upd_dw [simp]:
  "dw_lo (s\<lparr>mem_brk := b\<rparr>) d = dw_lo s d" "dw_hi (s\<lparr>mem_brk := b\<rparr>) d = dw_hi s d"
  by (simp_all add: dw_lo_def dw_hi_def)

lemma dll_brk_upd [simp]: "dll (s\<lparr>mem_brk := b\<rparr>) h p xs q = dll s h p xs q"
  by (induction xs arbitrary: p) auto

lemma seg_brk_upd [simp]: "seg (s\<lparr>mem_brk := b\<rparr>) a bl = seg s a bl"
  by (simp add: seg_def)

lemma region_word_brk: "region s h e \<Longrightarrow> mem_brk s = bptr e"
proof -
  assume r: "region s h e"
  have "mem_brk s = of_nat (unat (mem_brk s))" by simp
  also have "\<dots> = bptr e" using r unfolding region_def bptr_def by (simp del: of_nat_unat)
  finally show ?thesis .
qed

lemma bptr_add: "bptr e + of_nat (8 * k) = bptr (e + k)"
  by (simp add: bptr_def algebra_simps)

lemma sbrk_ok:
  assumes r: "region s h e" and fit: "8 * e + 8 + 8 * k \<le> unat (mem_max_addr s)"
  shows "mem_sbrk s (of_nat (8 * k)) = (bptr e, s\<lparr>mem_brk := bptr (e + k)\<rparr>)"
    and "region (s\<lparr>mem_brk := bptr (e + k)\<rparr>) h (e + k)"
proof -
  have b: "8 * e + 8 + 8 * k < 2 ^ 64" using fit unat_lt64 [of "mem_max_addr s"] by linarith
  then have u: "unat (of_nat (8 * k) :: addr) = 8 * k" by (intro unat_of_nat64) simp
  have br: "unat (mem_brk s) = 8 * e + 8" using r by (simp add: region_def)
  show "mem_sbrk s (of_nat (8 * k)) = (bptr e, s\<lparr>mem_brk := bptr (e + k)\<rparr>)"
    unfolding mem_sbrk_def u br using fit
    by (simp add: region_word_brk [OF r] bptr_add del: of_nat_mult)
  have "unat (bptr (e + k)) = 8 * (e + k) + 8" using b by (intro unat_bptr) simp
  then show "region (s\<lparr>mem_brk := bptr (e + k)\<rparr>) h (e + k)"
    using r fit by (simp add: region_def)
qed

lemma sbrk_fail:
  assumes r: "region s h e" and fit: "\<not> 8 * e + 8 + 8 * k \<le> unat (mem_max_addr s)"
    and k: "8 * k < 2 ^ 64"
  shows "mem_sbrk s (of_nat (8 * k)) = (- 1, s)"
proof -
  have u: "unat (of_nat (8 * k) :: addr) = 8 * k" using k by (intro unat_of_nat64) simp
  have br: "unat (mem_brk s) = 8 * e + 8" using r by (simp add: region_def)
  show ?thesis unfolding mem_sbrk_def u br using fit by simp
qed

lemma bptr_not_minus1: "8 * e + 8 < 2 ^ 64 \<Longrightarrow> (bptr e = - 1) = False"
proof -
  assume b: "8 * e + 8 < 2 ^ 64"
  have "unat (bptr e) = 8 * e + 8" by (rule unat_bptr [OF b])
  moreover have "unat (- 1 :: addr) = 2 ^ 64 - 1"
    by (simp add: unsigned_minus_1_eq_mask mask_eq_exp_minus_1)
  moreover have "8 * e + 8 \<noteq> (2 ^ 64 - 1 :: nat)"
  proof
    assume a: "8 * e + 8 = (2 ^ 64 - 1 :: nat)"
    have "even (8 * e + 8)" by simp
    moreover have "odd (2 ^ 64 - 1 :: nat)" by simp
    ultimately show False using a by simp
  qed
  ultimately have "unat (bptr e) \<noteq> unat (- 1 :: addr)" by simp
  then show ?thesis by auto
qed

lemma PACK_epilogue: "PACK 0 1 = tag 0 True"
  by (simp add: tag_def)

lemma extend_heap_ok:
  assumes hk: "heap_ok s h bs fl"
    and sz: "(if words mod 2 \<noteq> 0 then (words + 1) * 4 else words * 4) = of_nat (8 * k)"
    and k3: "3 \<le> k" and k64: "8 * k < 2 ^ 64"
    and e: "e = Suc (h + total bs)"
  shows "if 8 * e + 8 + 8 * k \<le> unat (mem_max_addr s)
         then \<exists>s' bs' fl' r j. extend_heap s words = Inr (bptr r, s') \<and> heap_ok s' h bs' (r # fl') \<and>
                total bs' = total bs + k \<and> (r, j, False) \<in> set (blocks (Suc h) bs') \<and>
                r \<le> e \<and> e + k \<le> r + j \<and> keeps_alloc h bs bs' \<and> (naf bs \<longrightarrow> naf bs')
         else extend_heap s words = Inr (0, s)"
proof (cases "8 * e + 8 + 8 * k \<le> unat (mem_max_addr s)")
  case False
  have t: "tags_ok s h bs" using hk by (simp add: heap_ok_alt)
  have r: "region s h e" unfolding e by (rule tags_ok_region [OF t])
  have "extend_heap s words = Inr (0, s)"
    unfolding extend_heap_def sz Let_def sbrk_fail [OF r False k64] by simp
  then show ?thesis using False by simp
next
  case True
  have t: "tags_ok s h bs" and l: "list_ok s h fl"
    and eq: "set fl = set (frees (Suc h) bs)"
    using hk by (simp_all add: heap_ok_alt)
  have r: "region s h e" unfolding e by (rule tags_ok_region [OF t])
  let ?s1 = "s\<lparr>mem_brk := bptr (e + k)\<rparr>"
  let ?s2 = "set_hi ?s1 e (tag k False)"
  let ?s3 = "set_lo ?s2 (e + k) (tag k False)"
  let ?s4 = "set_hi ?s3 (e + k) (tag 0 True)"
  let ?bs1 = "bs @ [(k, False)]"
  note sb = sbrk_ok [OF r True]
  have r1: "region ?s1 h (e + k)" by (rule sb(2))
  have r2: "region ?s2 h (e + k)" and r3: "region ?s3 h (e + k)" and r4: "region ?s4 h (e + k)"
    using r1 by simp_all
  have b: "8 * (e + k) + 8 < 2 ^ 64" using region_bound [OF r1] .
  have k32: "8 * k < 2 ^ 32" using region_span [OF r1] e by simp
  have eb: "h \<le> e" "e \<le> e + k" "h \<le> e + k" "e + k \<le> e + k" "e < 2 ^ 61" "e + k < 2 ^ 61"
    using e b by auto
  have nm: "(bptr e = - 1) = False" using b by (intro bptr_not_minus1) simp
  have w1: "PUT ?s1 (HDRP (bptr e)) (tag k False) = Inr ?s2"
    by (rule tag_writes(2) [OF r1 eb(1,2)])
  have f2: "FTRP ?s2 (bptr e) = Inr (of_nat (8 * (e + k)))"
    using eb by (intro R_FTRP [OF r2 eb(1,2) _ k32]) simp
  have w2: "PUT ?s2 (of_nat (8 * (e + k))) (tag k False) = Inr ?s3"
    by (rule tag_writes(1) [OF r2 eb(3,4)])
  have n3: "NEXT_BLKP ?s3 (bptr e) = Inr (bptr (e + k))"
    using eb k3 by (intro R_NEXT_BLKP [OF r3 eb(1,2) _ k32]) simp
  have w3: "PUT ?s3 (HDRP (bptr (e + k))) (tag 0 True) = Inr ?s4"
    by (rule tag_writes(2) [OF r3 eb(3,4)])
  have sg: "seg s (Suc h) bs" using t by (simp add: tags_ok_def)
  have t4: "tags_ok ?s4 h ?bs1"
  proof -
    have "seg ?s4 (Suc h) bs"
      using k3 by (intro seg_outside [OF _ _ sg]) (auto simp: e)
    moreover have "region ?s4 h (Suc (h + total ?bs1))"
      using r4 by (simp add: e add.assoc)
    ultimately show ?thesis
      using t eb k3 by (simp add: tags_ok_def e add.assoc)
  qed
  have fz: "\<And>z. z \<in> set fl \<Longrightarrow> z + 3 \<le> e"
    using frees_seg_bounds [OF sg] eq by (auto simp: e)
  have l4: "list_ok ?s4 h fl"
  proof -
    have "dll ?s4 h h fl h = dll s h h fl h"
    proof (rule dll_cong)
      fix z assume "z \<in> set fl"
      then have "Suc z \<noteq> e \<and> Suc z \<noteq> e + k" using fz [of z] by auto
      then show "dw_lo ?s4 (Suc z) = dw_lo s (Suc z) \<and> dw_hi ?s4 (Suc z) = dw_hi s (Suc z)"
        by simp
    qed
    then show ?thesis using l by (simp add: list_ok_def)
  qed
  have fr1: "set (frees (Suc h) ?bs1) = insert e (set fl)"
    unfolding eq by (auto simp: e)
  have en: "e \<notin> set fl" using fz [of e] by auto
  from freelist_add_ok [OF t4 l4 _ _ en] fr1 obtain s5 where s5:
    "freelist_add ?s4 (bptr e) = Inr s5" "tags_ok s5 h ?bs1" "list_ok s5 h (e # fl)"
    by auto
  have h5: "heap_ok s5 h ?bs1 (e # fl)"
    unfolding heap_ok_alt using s5 fr1 by simp
  from coalesce_ok [OF h5 refl e] obtain s6 bs' fl' r' j where s6:
    "coalesce s5 (bptr e) = Inr (bptr r', s6)" "heap_ok s6 h bs' (r' # fl')"
    "total bs' = total ?bs1" "(r', j, False) \<in> set (blocks (Suc h) bs')"
    "r' \<le> e" "e + k \<le> r' + j" "keeps_alloc h ?bs1 bs'" "naf (bs @ (k, True) # []) \<longrightarrow> naf bs'"
    by blast
  have run: "extend_heap s words = Inr (bptr r', s6)"
    unfolding extend_heap_def sz Let_def sb(1) prod.case nm if_False PACK_tag w1 f2 w2
      bind_res_simps n3 PACK_epilogue w3 s5(1) s6(1) ..
  have ka: "keeps_alloc h bs bs'"
    using s6(7) by (auto simp: keeps_alloc_def blocks_append)
  have nf: "naf bs \<longrightarrow> naf bs'" using s6(8) by (auto simp: naf_append)
  show ?thesis
    using True run s6(2-6) ka nf
    by (simp only: if_True) (intro exI [of _ s6] exI [of _ bs'] exI [of _ fl'] exI [of _ r'] exI [of _ j], simp)
qed

section \<open>place\<close>

lemma sz_sub: "a \<le> c \<Longrightarrow> (of_nat (8 * c) :: addr) - of_nat (8 * a) = of_nat (8 * (c - a))"
  by (simp add: of_nat_diff algebra_simps)

lemma split_test:
  assumes "8 * d < 2 ^ 64"
  shows "((3::addr) * 8 \<le> of_nat (8 * d)) = (3 \<le> d)"
proof -
  have "unat (of_nat (8 * d) :: addr) = 8 * d" by (rule unat_of_nat64 [OF assms])
  then show ?thesis by (simp add: word_le_nat_alt del: of_nat_mult)
qed

lemma dll_replace:
  assumes d: "dll s h p0 (us @ x # vs) q" and dist: "distinct (us @ x # vs)"
    and y: "y \<notin> set (us @ x # vs)"
    and bnd: "\<And>z. z \<in> set (us @ x # vs) \<Longrightarrow> Suc z < 2 ^ 61" "Suc y < 2 ^ 61"
    and p: "p = last (p0 # us)" and n: "n = hd (vs @ [q])"
    and s6: "s6 = set_hi (set_lo s (Suc y) (off (p - h))) (Suc y) (off (n - h))"
    and s7: "s7 = (if us = [] then s6 else set_hi s6 (Suc p) (off (y - h)))"
    and s8: "s8 = (if vs = [] then s7 else set_lo s7 (Suc n) (off (y - h)))"
  shows "dll s8 h p0 (us @ y # vs) q"
proof -
  have nv: "vs \<noteq> [] \<Longrightarrow> n \<in> set vs" using n by (cases vs) auto
  have pu: "us \<noteq> [] \<Longrightarrow> p \<in> set us" using p by (cases us rule: rev_cases) auto
  have 1: "dll s8 h p0 us y"
  proof (cases us rule: rev_cases)
    case Nil then show ?thesis by simp
  next
    case (snoc us' p')
    have pp: "p = p'" using p snoc by simp
    have d1: "dll s h p0 us' p'" "dw_lo s (Suc p') = off (last (p0 # us') - h)"
      using d snoc by (simp_all add: dll_append)
    have ne: "p' \<noteq> y" "y \<notin> set us'" "p' \<notin> set us'" "Suc p' < 2 ^ 61"
      using dist y snoc bnd(1) [of p'] by auto
    have d6: "dll s7 h p0 us' p'" "dw_lo s7 (Suc p') = off (last (p0 # us') - h)"
      "dw_hi s7 (Suc p') = off (y - h)"
      using d1 ne snoc by (simp_all add: s7 s6 pp)
    show ?thesis
    proof (cases "vs = []")
      case True
      then show ?thesis using d6 by (simp add: s8 snoc dll_snoc)
    next
      case False
      have "n \<noteq> p'" "n \<notin> set us'" using nv [OF False] dist snoc by auto
      then show ?thesis using d6 False by (simp add: s8 snoc dll_snoc)
    qed
  qed
  have 2: "dll s8 h y vs q"
  proof (cases vs)
    case Nil then show ?thesis by simp
  next
    case (Cons n' vs')
    have nn: "n = n'" using n Cons by simp
    have d2: "dll s h n' vs' q" "dw_hi s (Suc n') = off (hd (vs' @ [q]) - h)"
      using d Cons by (simp_all add: dll_append)
    have ne: "n' \<noteq> y" "n' \<notin> set vs'" "y \<notin> set vs'" "Suc n' < 2 ^ 61"
      using dist y Cons bnd(1) [of n'] by auto
    have d6: "dll s6 h n' vs' q" "dw_hi s6 (Suc n') = off (hd (vs' @ [q]) - h)"
      using d2 ne by (simp_all add: s6)
    have d7: "dll s7 h n' vs' q" "dw_hi s7 (Suc n') = off (hd (vs' @ [q]) - h)"
    proof -
      have "us \<noteq> [] \<Longrightarrow> p \<noteq> n' \<and> p \<notin> set vs'" using pu dist Cons by auto
      then show "dll s7 h n' vs' q" "dw_hi s7 (Suc n') = off (hd (vs' @ [q]) - h)"
        using d6 by (cases "us = []"; simp add: s7)+
    qed
    show ?thesis using d7 ne by (simp add: s8 Cons nn)
  qed
  have 3: "dw_lo s8 (Suc y) = off (last (p0 # us) - h) \<and> dw_hi s8 (Suc y) = off (hd (vs @ [q]) - h)"
  proof -
    have a: "us \<noteq> [] \<Longrightarrow> p \<noteq> y" using pu y by auto
    have b: "vs \<noteq> [] \<Longrightarrow> n \<noteq> y" using nv y by auto
    have "dw_lo s6 (Suc y) = off (p - h)" "dw_hi s6 (Suc y) = off (n - h)"
      using bnd(2) by (simp_all add: s6)
    then have "dw_lo s7 (Suc y) = off (p - h)" "dw_hi s7 (Suc y) = off (n - h)"
      using a by (cases "us = []"; simp add: s7)+
    then have "dw_lo s8 (Suc y) = off (p - h)" "dw_hi s8 (Suc y) = off (n - h)"
      using b by (cases "vs = []"; simp add: s8)+
    then show ?thesis by (simp add: p n)
  qed
  show ?thesis using 1 2 3 by (simp add: dll_append)
qed

lemma dll_unlink_head:
  assumes d: "dll s h h (x # vs) h" and dist: "distinct (x # vs)"
    and bnd: "\<And>z. z \<in> set vs \<Longrightarrow> Suc z < 2 ^ 61"
  shows "dll (if vs = [] then s else set_lo s (Suc (hd vs)) (off (h - h))) h h vs h"
proof (cases vs)
  case Nil then show ?thesis by simp
next
  case (Cons n vs')
  then show ?thesis using d dist bnd [of n] by simp
qed

lemma place_setup:
  assumes hk: "heap_ok s h bs fl" and bs: "bs = xs @ (c, False) # ys"
    and x: "x = Suc (h + total xs)" and fl: "fl = us @ x # vs"
    and p: "p = last (h # us)" and n: "n = hd (vs @ [h])"
  shows "GET_SIZE s (HDRP (bptr x)) = Inr (of_nat (8 * c))"
    "GET_PRED s (bptr x) = Inr (bptr p)" "GET_SUCC s (bptr x) = Inr (bptr n)"
    "(bptr p = bptr h) = (us = [])" "(bptr n = bptr h) = (vs = [])"
    "(bptr x = first_free s) = (us = [])"
    "us \<noteq> [] \<Longrightarrow> p \<in> set us" "vs \<noteq> [] \<Longrightarrow> n \<in> set vs"
    "h \<le> p" "p < Suc (h + total bs)" "h \<le> n" "n < Suc (h + total bs)"
proof -
  let ?e = "Suc (h + total bs)"
  have t: "tags_ok s h bs" and l: "list_ok s h fl"
    and eq: "set fl = set (frees (Suc h) bs)"
    using hk by (simp_all add: heap_ok_alt)
  have r: "region s h ?e" by (rule tags_ok_region [OF t])
  have b: "8 * ?e + 8 < 2 ^ 64" by (rule region_bound [OF r])
  have nb: "\<And>z. z \<in> set fl \<Longrightarrow> h < z \<and> z + 3 \<le> ?e \<and> Suc z < 2 ^ 61"
    using node_bounds [OF t] eq by blast
  have d: "dll s h h fl h" and dist: "distinct fl" and ff: "first_free s = bptr (hd (fl @ [h]))"
    using l by (simp_all add: list_ok_def)
  have ma: "(x, c, False) \<in> set (all_blocks h bs)"
    by (simp add: all_blocks_def bs blocks_append x add.assoc)
  show "GET_SIZE s (HDRP (bptr x)) = Inr (of_nat (8 * c))" by (rule blk_reads(1) [OF t ma])
  show pu: "us \<noteq> [] \<Longrightarrow> p \<in> set us" using p by (cases us rule: rev_cases) auto
  show nv: "vs \<noteq> [] \<Longrightarrow> n \<in> set vs" using n by (cases vs) auto
  have pb: "h \<le> p \<and> p < ?e \<and> (p = h) = (us = [])"
  proof (cases "us = []")
    case True then show ?thesis using p by simp
  next
    case False
    then have "p \<in> set fl" using pu fl by simp
    then show ?thesis using nb [of p] False by auto
  qed
  have nb': "h \<le> n \<and> n < ?e \<and> (n = h) = (vs = [])"
  proof (cases "vs = []")
    case True then show ?thesis using n by simp
  next
    case False
    then have "n \<in> set fl" using nv fl by simp
    then show ?thesis using nb [of n] False by auto
  qed
  show "h \<le> p" "p < ?e" "h \<le> n" "n < ?e" using pb nb' by auto
  have xb: "h < x" "x < ?e" using nb [of x] fl by auto
  have f: "dw_lo s (Suc x) = off (p - h)" "dw_hi s (Suc x) = off (n - h)"
    using dll_fields [of s h h us x vs h] d unfolding fl p n by simp_all
  show "GET_PRED s (bptr x) = Inr (bptr p)"
    using xb pb by (intro R_GET_PRED [OF r _ _ f(1)]) auto
  show "GET_SUCC s (bptr x) = Inr (bptr n)"
    using xb nb' by (intro R_GET_SUCC [OF r _ _ f(2)]) auto
  show "(bptr p = bptr h) = (us = [])" using pb b by (subst bptr_eq) auto
  show "(bptr n = bptr h) = (vs = [])" using nb' b by (subst bptr_eq) auto
  have "(x = hd (fl @ [h])) = (us = [])"
    using dist fl by (cases us) auto
  moreover have "hd (fl @ [h]) \<in> set fl" using fl by (cases us) auto
  ultimately show "(bptr x = first_free s) = (us = [])"
    unfolding ff using nb [of "hd (fl @ [h])"] xb b by (subst bptr_eq) auto
qed

lemma place_split_ok:
  assumes hk: "heap_ok s h bs fl" and bs: "bs = xs @ (c, False) # ys"
    and x: "x = Suc (h + total xs)" and fl: "fl = us @ x # vs"
    and a: "3 \<le> a" "a \<le> c" and sp: "3 \<le> c - a"
  shows "\<exists>s'. place s (bptr x) (of_nat (8 * a)) = Inr s' \<and>
           heap_ok s' h (xs @ (a, True) # (c - a, False) # ys) (us @ (x + a) # vs) \<and>
           (\<forall>d. x < d \<and> d < x + a \<longrightarrow> dw_lo s' d = dw_lo s d \<and> dw_hi s' d = dw_hi s d)"
proof -
  let ?e = "Suc (h + total bs)" and ?y = "x + a" and ?d = "c - a"
  let ?bs' = "xs @ (a, True) # (?d, False) # ys" and ?fl' = "us @ ?y # vs"
  define p where "p = last (h # us)"
  define n where "n = hd (vs @ [h])"
  note su = place_setup [OF hk bs x fl p_def n_def]
  have t: "tags_ok s h bs" and l: "list_ok s h fl"
    and eq: "set fl = set (frees (Suc h) bs)"
    using hk by (simp_all add: heap_ok_alt)
  have r: "region s h ?e" by (rule tags_ok_region [OF t])
  have hl: "heap_listp s = bptr h" by (rule tags_ok_heap_listp [OF t])
  have b: "8 * ?e + 8 < 2 ^ 64" by (rule region_bound [OF r])
  have d: "dll s h h fl h" and dist: "distinct fl"
    using l by (simp_all add: list_ok_def)
  have sg: "seg s (Suc h) xs" "seg s (x + c) ys" "3 \<le> c"
    using t by (simp_all add: tags_ok_def bs x add.assoc)
  have tot: "total bs = total xs + c + total ys" by (simp add: bs)
  have span: "8 * (?e - h) + 8 < 2 ^ 32" by (rule region_span [OF r])
  have k32: "8 * c < 2 ^ 32" "8 * a < 2 ^ 32" "8 * ?d < 2 ^ 32" "8 * c < 2 ^ 64"  "8 * ?d < 2 ^ 64"
    using span tot a by auto
  have xb: "h \<le> x" "x \<le> ?e" "h \<le> ?y" "?y \<le> ?e" "h \<le> ?y + ?d" "?y + ?d \<le> ?e" "?y < ?e"
    "x < 2 ^ 61" "?y < 2 ^ 61" "?y + ?d < 2 ^ 61" "Suc ?y < 2 ^ 61" "?y + ?d = x + c"
    using tot x a sp dw_bound [OF r, of "?y + ?d"] by auto
  have fxs: "\<And>z. z \<in> set (frees (Suc h) xs) \<Longrightarrow> z + 3 \<le> x"
    using frees_seg_bounds [OF sg(1)] by (auto simp: x)
  have fys: "\<And>z. z \<in> set (frees (x + c) ys) \<Longrightarrow> x + c \<le> z"
    using frees_seg_bounds [OF sg(2)] by auto
  have fr: "set fl = set (frees (Suc h) xs) \<union> {x} \<union> set (frees (x + c) ys)"
    unfolding eq by (auto simp: bs x add.assoc)
  have fr': "set (frees (Suc h) ?bs') = set (frees (Suc h) xs) \<union> {?y} \<union> set (frees (x + c) ys)"
    using a by (auto simp: x add.assoc)
  have yn: "?y \<notin> set fl" unfolding fr using fxs [of ?y] fys [of ?y] a sp by auto
  have nodes: "set ?fl' = set (frees (Suc h) ?bs')"
  proof -
    have "set ?fl' = (set fl - {x}) \<union> {?y}" using dist fl by auto
    also have "\<dots> = set (frees (Suc h) ?bs')"
      unfolding fr fr' using fxs [of x] fys [of x] sg(3) by auto
    finally show ?thesis .
  qed
  have szc: "(ucast (of_nat (8 * c) :: word32) :: addr) = of_nat (8 * c)" by (rule ucast_sz [OF k32(1)])
  have tst: "((3::addr) * 8 \<le> of_nat (8 * ?d)) = True" using split_test [OF k32(5)] sp by simp
  let ?s1 = "set_hi s x (tag a True)"
  let ?s2 = "set_lo ?s1 ?y (tag a True)"
  let ?s3 = "set_hi ?s2 ?y (tag ?d False)"
  let ?s4 = "set_lo ?s3 (?y + ?d) (tag ?d False)"
  let ?s5 = "set_lo ?s4 (Suc ?y) (off (p - h))"
  let ?s6 = "set_hi ?s5 (Suc ?y) (off (n - h))"
  let ?s7 = "if us = [] then ?s6 else set_hi ?s6 (Suc p) (off (?y - h))"
  let ?s8 = "if vs = [] then ?s7 else set_lo ?s7 (Suc n) (off (?y - h))"
  let ?s9 = "if us = [] then ?s8\<lparr>first_free := bptr ?y\<rparr> else ?s8"
  have r1: "region ?s1 h ?e" and r2: "region ?s2 h ?e" and r3: "region ?s3 h ?e"
    and r4: "region ?s4 h ?e" and r5: "region ?s5 h ?e" and r6: "region ?s6 h ?e"
    and r7: "region ?s7 h ?e"
    using r by simp_all
  have w1: "PUT s (HDRP (bptr x)) (tag a True) = Inr ?s1"
    by (rule tag_writes(2) [OF r xb(1,2)])
  have f1: "FTRP ?s1 (bptr x) = Inr (of_nat (8 * ?y))"
    using xb by (intro R_FTRP [OF r1 xb(1,2) _ k32(2)]) simp
  have w2: "PUT ?s1 (of_nat (8 * ?y)) (tag a True) = Inr ?s2"
    by (rule tag_writes(1) [OF r1 xb(3,4)])
  have n2: "NEXT_BLKP ?s2 (bptr x) = Inr (bptr ?y)"
    using xb by (intro R_NEXT_BLKP [OF r2 xb(1,2) _ k32(2)]) simp
  have w3: "PUT ?s2 (HDRP (bptr ?y)) (tag ?d False) = Inr ?s3"
    by (rule tag_writes(2) [OF r2 xb(3,4)])
  have f3: "FTRP ?s3 (bptr ?y) = Inr (of_nat (8 * (?y + ?d)))"
    using xb by (intro R_FTRP [OF r3 xb(3,4) _ k32(3)]) simp
  have w4: "PUT ?s3 (of_nat (8 * (?y + ?d))) (tag ?d False) = Inr ?s4"
    by (rule tag_writes(1) [OF r3 xb(5,6)])
  have w5: "SET_PRED ?s4 (bptr ?y) (bptr p) = Inr ?s5"
    by (rule R_SET_PRED [OF r4 xb(3,7) su(9)])
  have w6: "SET_SUCC ?s5 (bptr ?y) (bptr n) = Inr ?s6"
    by (rule R_SET_SUCC [OF r5 xb(3,7) su(11)])
  have w7: "(if bptr p \<noteq> heap_listp ?s6 then SET_SUCC ?s6 (bptr p) (bptr ?y) else Inr ?s6) = Inr ?s7"
  proof (cases "us = []")
    case True then show ?thesis using su(4) by (simp add: hl)
  next
    case False
    have "p \<in> set fl" using su(7) [OF False] fl by simp
    then have "h \<le> p" "p < ?e" using su by auto
    from R_SET_SUCC [OF r6 this xb(3)] show ?thesis using False su(4) by (simp add: hl)
  qed
  have w8: "(if bptr n \<noteq> heap_listp ?s7 then SET_PRED ?s7 (bptr n) (bptr ?y) else Inr ?s7) = Inr ?s8"
  proof (cases "vs = []")
    case True then show ?thesis using su(5) by (simp add: hl)
  next
    case False
    have "h \<le> n" "n < ?e" using su by auto
    from R_SET_PRED [OF r7 this xb(3)] show ?thesis using False su(5) by (simp add: hl)
  qed
  have w9: "(if bptr x = first_free ?s8 then ?s8\<lparr>first_free := bptr ?y\<rparr> else ?s8) = ?s9"
    using su(6) by simp
  have run: "place s (bptr x) (of_nat (8 * a)) = Inr ?s9"
    unfolding place_def su(1,2,3) exec_simps szc sz_sub [OF a(2)] tst PACK_tag
      w1 f1 w2 n2 w3 f3 w4 w5 w6 w7 w8 w9 ..
  have t4: "tags_ok ?s4 h ?bs'"
  proof -
    have "tags_ok ?s4 h (xs @ [(a, True), (?d, False)] @ ys)"
    proof (rule reseg_ok [where s = s and mid = "[(c, False)]" and X = x])
      show "tags_ok s h (xs @ [(c, False)] @ ys)" using t bs by simp
      show "seg ?s4 x [(a, True), (?d, False)]"
        using a sp xb by (simp add: add.assoc)
    qed (use xb x a sp sg(3) in auto)
    then show ?thesis by simp
  qed
  have yf: "?y \<in> set (frees (Suc h) ?bs')" unfolding fr' by simp
  have pf: "us \<noteq> [] \<Longrightarrow> p \<in> set (frees (Suc h) ?bs')"
    using su(7) nodes by auto
  have nf: "vs \<noteq> [] \<Longrightarrow> n \<in> set (frees (Suc h) ?bs')"
    using su(8) nodes by auto
  have t6: "tags_ok ?s6 h ?bs'"
    by (intro tags_ok_set_hi_link tags_ok_set_lo_link t4 yf)
  have t7: "tags_ok ?s7 h ?bs'"
    using t6 pf by (cases "us = []") (auto intro: tags_ok_set_hi_link)
  have t8: "tags_ok ?s8 h ?bs'"
    using t7 nf by (cases "vs = []") (auto intro: tags_ok_set_lo_link)
  have t9: "tags_ok ?s9 h ?bs'"
    using t8 by (cases "us = []") auto
  have d4: "dll ?s4 h h (us @ x # vs) h"
  proof -
    have "dll ?s4 h h fl h = dll s h h fl h"
    proof (rule dll_cong)
      fix z assume "z \<in> set fl"
      then have "Suc z \<noteq> x \<and> Suc z \<noteq> ?y \<and> Suc z \<noteq> ?y + ?d"
        using fr fxs [of z] fys [of z] a sp by auto
      then show "dw_lo ?s4 (Suc z) = dw_lo s (Suc z) \<and> dw_hi ?s4 (Suc z) = dw_hi s (Suc z)"
        by simp
    qed
    then show ?thesis using d fl by simp
  qed
  have nb: "\<And>z. z \<in> set (us @ x # vs) \<Longrightarrow> Suc z < 2 ^ 61"
    using node_bounds [OF t] eq fl by blast
  have d8: "dll ?s8 h h ?fl' h"
    by (rule dll_replace [OF d4 dist [unfolded fl] yn [unfolded fl] nb xb(11) p_def n_def refl refl refl])
  have l9: "list_ok ?s9 h ?fl'"
  proof -
    have "distinct ?fl'" using dist yn fl by auto
    moreover have "first_free ?s9 = bptr (hd (?fl' @ [h]))"
      using l fl by (cases us) (auto simp: list_ok_def)
    moreover have "dll ?s9 h h ?fl' h" using d8 by (cases "us = []") auto
    ultimately show ?thesis by (simp add: list_ok_def)
  qed
  have fm: "dw_lo ?s9 d = dw_lo s d \<and> dw_hi ?s9 d = dw_hi s d" if dd: "x < d" "d < x + a" for d
  proof -
    have 1: "d \<noteq> x" "d \<noteq> ?y" "d \<noteq> ?y + ?d" "d \<noteq> Suc ?y" using dd a sp by auto
    have far: "d \<noteq> Suc z" if "z \<in> set fl" "z \<noteq> x" for z
      using that fr fxs [of z] fys [of z] dd a by auto
    have 2: "us \<noteq> [] \<Longrightarrow> d \<noteq> Suc p" using su(7) dist fl by (intro far) auto
    have 3: "vs \<noteq> [] \<Longrightarrow> d \<noteq> Suc n" using su(8) dist fl by (intro far) auto
    show ?thesis using 1 2 3 by (cases "us = []"; cases "vs = []") simp_all
  qed
  have "heap_ok ?s9 h ?bs' ?fl'"
    unfolding heap_ok_alt using t9 l9 nodes by blast
  then show ?thesis using run fm by blast
qed

lemma set_first_free_commute [simp]:
  "set_lo (s\<lparr>first_free := f\<rparr>) d v = (set_lo s d v)\<lparr>first_free := f\<rparr>"
  "set_hi (s\<lparr>first_free := f\<rparr>) d v = (set_hi s d v)\<lparr>first_free := f\<rparr>"
  by (simp_all add: set_lo_def set_hi_def)

lemma place_whole_ok:
  assumes hk: "heap_ok s h bs fl" and bs: "bs = xs @ (c, False) # ys"
    and x: "x = Suc (h + total xs)" and fl: "fl = us @ x # vs"
    and a: "3 \<le> a" "a \<le> c" and sp: "\<not> 3 \<le> c - a"
  shows "\<exists>s'. place s (bptr x) (of_nat (8 * a)) = Inr s' \<and>
           heap_ok s' h (xs @ (c, True) # ys) (us @ vs) \<and>
           (\<forall>d. x < d \<and> d < x + c \<longrightarrow> dw_lo s' d = dw_lo s d \<and> dw_hi s' d = dw_hi s d)"
proof -
  let ?e = "Suc (h + total bs)" and ?d = "c - a"
  let ?bs' = "xs @ (c, True) # ys" and ?fl' = "us @ vs"
  define p where "p = last (h # us)"
  define n where "n = hd (vs @ [h])"
  note su = place_setup [OF hk bs x fl p_def n_def]
  have t: "tags_ok s h bs" and l: "list_ok s h fl"
    and eq: "set fl = set (frees (Suc h) bs)"
    using hk by (simp_all add: heap_ok_alt)
  have r: "region s h ?e" by (rule tags_ok_region [OF t])
  have hl: "heap_listp s = bptr h" by (rule tags_ok_heap_listp [OF t])
  have b: "8 * ?e + 8 < 2 ^ 64" by (rule region_bound [OF r])
  have d: "dll s h h fl h" and dist: "distinct fl"
    using l by (simp_all add: list_ok_def)
  have sg: "seg s (Suc h) xs" "seg s (x + c) ys" "3 \<le> c"
    using t by (simp_all add: tags_ok_def bs x add.assoc)
  have tot: "total bs = total xs + c + total ys" by (simp add: bs)
  have span: "8 * (?e - h) + 8 < 2 ^ 32" by (rule region_span [OF r])
  have k32: "8 * c < 2 ^ 32" "8 * ?d < 2 ^ 64"
    using span tot a by auto
  have xb: "h \<le> x" "x \<le> ?e" "h \<le> x + c" "x + c \<le> ?e" "x < 2 ^ 61" "x + c < 2 ^ 61"
    using tot x dw_bound [OF r, of "x + c"] by auto
  have fxs: "\<And>z. z \<in> set (frees (Suc h) xs) \<Longrightarrow> z + 3 \<le> x"
    using frees_seg_bounds [OF sg(1)] by (auto simp: x)
  have fys: "\<And>z. z \<in> set (frees (x + c) ys) \<Longrightarrow> x + c \<le> z"
    using frees_seg_bounds [OF sg(2)] by auto
  have fr: "set fl = set (frees (Suc h) xs) \<union> {x} \<union> set (frees (x + c) ys)"
    unfolding eq by (auto simp: bs x add.assoc)
  have fr': "set (frees (Suc h) ?bs') = set (frees (Suc h) xs) \<union> set (frees (x + c) ys)"
    by (auto simp: x add.assoc)
  have nodes: "set ?fl' = set (frees (Suc h) ?bs')"
  proof -
    have "set ?fl' = set fl - {x}" using dist fl by auto
    also have "\<dots> = set (frees (Suc h) ?bs')"
      unfolding fr fr' using fxs [of x] fys [of x] sg(3) by auto
    finally show ?thesis .
  qed
  have nb: "\<And>z. z \<in> set fl \<Longrightarrow> Suc z < 2 ^ 61"
    using node_bounds [OF t] eq by blast
  have szc: "(ucast (of_nat (8 * c) :: word32) :: addr) = of_nat (8 * c)" by (rule ucast_sz [OF k32(1)])
  have tst: "((3::addr) * 8 \<le> of_nat (8 * ?d)) = False" using split_test [OF k32(2)] sp by simp
  let ?s1 = "set_hi s x (tag c True)"
  let ?s2 = "set_lo ?s1 (x + c) (tag c True)"
  let ?s3 = "?s2\<lparr>first_free := bptr n\<rparr>"
  let ?s' = "if us = [] then (if vs = [] then ?s3 else set_lo ?s3 (Suc n) (off (h - h)))
             else unlinked ?s2 h p n"
  have r1: "region ?s1 h ?e" and r2: "region ?s2 h ?e" and r3: "region ?s3 h ?e"
    using r by simp_all
  have w1: "PUT s (HDRP (bptr x)) (tag c True) = Inr ?s1"
    by (rule tag_writes(2) [OF r xb(1,2)])
  have f1: "FTRP ?s1 (bptr x) = Inr (of_nat (8 * (x + c)))"
    using xb by (intro R_FTRP [OF r1 xb(1,2) _ k32(1)]) simp
  have w2: "PUT ?s1 (of_nat (8 * (x + c))) (tag c True) = Inr ?s2"
    by (rule tag_writes(1) [OF r1 xb(3,4)])
  have tail: "(if bptr p = heap_listp ?s2
      then let s3 = ?s2\<lparr>first_free := bptr n\<rparr>
           in if bptr n \<noteq> heap_listp s3 then SET_PRED s3 (first_free s3) (heap_listp s3)
              else Inr s3
      else if bptr n \<noteq> heap_listp ?s2
           then bind_res (SET_SUCC ?s2 (bptr p) (bptr n)) (\<lambda>s3. SET_PRED s3 (bptr n) (bptr p))
           else SET_SUCC ?s2 (bptr p) (bptr n)) = Inr ?s'"
  proof (cases "us = []")
    case True
    show ?thesis
    proof (cases "vs = []")
      case True
      then show ?thesis using \<open>us = []\<close> su(4,5) by (simp add: hl)
    next
      case False
      have "h \<le> n" "n < ?e" using su by auto
      from R_SET_PRED [OF r3 this order_refl] show ?thesis
        using False \<open>us = []\<close> su(4,5) by (simp add: hl)
    qed
  next
    case False
    have pb: "h < p" "p < ?e" using su(4,9,10) False b
      by (metis bptr_eq le_neq_implies_less, simp)
    have nb': "h \<le> n" "n < ?e" using su by auto
    have ue: "bind_res (SET_SUCC ?s2 (bptr p) (bptr n))
           (\<lambda>s1. if bptr n \<noteq> heap_listp s1 then SET_PRED s1 (bptr n) (bptr p) else Inr s1)
         = Inr (unlinked ?s2 h p n)"
      by (rule unlink_exec [OF r2 pb nb'])
    show ?thesis
    proof (cases "vs = []")
      case True
      then have nh: "n = h" by (simp add: n_def)
      have "SET_SUCC ?s2 (bptr p) (bptr n) = Inr (set_hi ?s2 (Suc p) (off (n - h)))"
        using pb nb' by (intro R_SET_SUCC [OF r2]) auto
      then show ?thesis using False su(4) by (simp add: hl nh unlinked_def)
    next
      case vf: False
      then have nh: "bptr n \<noteq> bptr h" using su(5) by simp
      have "SET_SUCC ?s2 (bptr p) (bptr n) = Inr (set_hi ?s2 (Suc p) (off (n - h)))"
        using pb nb' by (intro R_SET_SUCC [OF r2]) auto
      then show ?thesis using ue False su(4) nh by (simp add: hl)
    qed
  qed
  have run: "place s (bptr x) (of_nat (8 * a)) = Inr ?s'"
    unfolding place_def su(1,2,3) exec_simps szc sz_sub [OF a(2)] tst PACK_tag
      w1 f1 w2 using tail by (simp only: Let_def)
  have t2: "tags_ok ?s2 h ?bs'"
  proof (rule retag_ok' [where s = s and mid = "[(c, False)]" and X = x])
    show "tags_ok s h (xs @ [(c, False)] @ ys)" using t bs by simp
  qed (use xb x in auto)
  have pf: "us \<noteq> [] \<Longrightarrow> p \<in> set (frees (Suc h) ?bs')"
    using su(7) nodes by auto
  have nf: "vs \<noteq> [] \<Longrightarrow> n \<in> set (frees (Suc h) ?bs')"
    using su(8) nodes by auto
  have nh: "(n = h) = (vs = [])" using su(5,11,12) b by (subst (asm) bptr_eq) auto
  have t': "tags_ok ?s' h ?bs'"
  proof (cases "us = []")
    case True
    then show ?thesis using t2 nf by (cases "vs = []") (auto intro: tags_ok_set_lo_link)
  next
    case False
    then show ?thesis using t2 pf nf nh
      by (cases "vs = []") (auto simp: unlinked_def intro!: tags_ok_set_lo_link tags_ok_set_hi_link)
  qed
  have d2: "dll ?s2 h h (us @ x # vs) h"
  proof -
    have "dll ?s2 h h fl h = dll s h h fl h"
    proof (rule dll_cong)
      fix z assume "z \<in> set fl"
      then have "Suc z \<noteq> x \<and> Suc z \<noteq> x + c"
        using fr fxs [of z] fys [of z] sg(3) by auto
      then show "dw_lo ?s2 (Suc z) = dw_lo s (Suc z) \<and> dw_hi ?s2 (Suc z) = dw_hi s (Suc z)"
        by simp
    qed
    then show ?thesis using d fl by simp
  qed
  have l': "list_ok ?s' h ?fl'"
  proof (cases us rule: rev_cases)
    case Nil
    have "dll (if vs = [] then ?s2 else set_lo ?s2 (Suc (hd vs)) (off (h - h))) h h vs h"
      using d2 dist nb by (intro dll_unlink_head [of _ _ x]) (auto simp: fl Nil)
    moreover have "vs \<noteq> [] \<Longrightarrow> n = hd vs" by (cases vs) (auto simp: n_def)
    ultimately have "dll ?s' h h vs h" using Nil by (cases "vs = []") auto
    moreover have "first_free ?s' = bptr (hd (vs @ [h]))" using Nil by (auto simp: n_def)
    ultimately show ?thesis using dist fl Nil by (simp add: list_ok_def)
  next
    case (snoc us' p')
    have pp: "p = p'" by (simp add: p_def snoc)
    have d0: "dll ?s2 h h (us' @ [p] @ x # vs) h" using d2 by (simp add: snoc pp)
    have dist0: "distinct (us' @ [p] @ x # vs)" using dist by (simp add: fl snoc pp)
    have bnd: "\<And>z. z \<in> set (us' @ [p] @ x # vs) \<Longrightarrow> Suc z < 2 ^ 61"
      using nb by (simp add: fl snoc pp)
    have "unlinked ?s2 h p n = (if vs = [] then set_hi ?s2 (Suc p) (off (h - h))
              else set_lo (set_hi ?s2 (Suc p) (off (hd vs - h))) (Suc (hd vs)) (off (p - h)))"
      using nh by (cases vs) (auto simp: unlinked_def n_def)
    then have "dll (unlinked ?s2 h p n) h h (us' @ [p] @ vs) h"
      using dll_unlink [OF d0 dist0 bnd] by presburger
    then have "dll ?s' h h (us @ vs) h" by (simp add: snoc pp)
    moreover have "first_free ?s' = bptr (hd ((us @ vs) @ [h]))"
      using l by (cases us') (auto simp: snoc list_ok_def fl)
    ultimately show ?thesis using dist fl by (simp add: list_ok_def)
  qed
  have fm: "dw_lo ?s' d = dw_lo s d \<and> dw_hi ?s' d = dw_hi s d" if dd: "x < d" "d < x + c" for d
  proof -
    have 1: "d \<noteq> x" "d \<noteq> x + c" using dd by auto
    have far: "d \<noteq> Suc z" if "z \<in> set fl" "z \<noteq> x" for z
      using that fr fxs [of z] fys [of z] dd by auto
    have 2: "us \<noteq> [] \<Longrightarrow> d \<noteq> Suc p" using su(7) dist fl by (intro far) auto
    have 3: "vs \<noteq> [] \<Longrightarrow> d \<noteq> Suc n" using su(8) dist fl by (intro far) auto
    show ?thesis using 1 2 3 nh
      by (cases "us = []"; cases "vs = []") (simp_all add: unlinked_def)
  qed
  have "heap_ok ?s' h ?bs' ?fl'"
    unfolding heap_ok_alt using t' l' nodes by blast
  then show ?thesis using run fm by blast
qed

section \<open>find_fit\<close>

lemma blocks_unique:
  assumes "(z, k, al) \<in> set (blocks a bl)" "(z, k', al') \<in> set (blocks a bl)" "1 \<le> k" "1 \<le> k'"
  shows "k = k' \<and> al = al'"
  using blocks_apart [OF assms(1,2)] assms(3,4) by auto

lemma bsize_eq:
  assumes sg: "seg s (Suc h) bs" and m: "(z, k, al) \<in> set (blocks (Suc h) bs)"
  shows "bsize h bs z = k"
proof -
  let ?P = "\<lambda>(y, k, al). y = z"
  have "\<exists>x. x \<in> set (blocks (Suc h) bs) \<and> ?P x" using m by auto
  then obtain y k' al' where f: "List.find ?P (blocks (Suc h) bs) = Some (y, k', al')"
    by (cases "List.find ?P (blocks (Suc h) bs)") (auto simp: find_None_iff)
  then have "(y, k', al') \<in> set (blocks (Suc h) bs)" "y = z"
    by (auto simp: find_Some_iff) (metis nth_mem)
  then have "k' = k" using blocks_unique [OF m] seg_min [OF sg] m by fastforce
  then show ?thesis by (simp add: bsize_def f)
qed

lemma fits_node:
  assumes t: "tags_ok s h bs" and m: "(z, k, False) \<in> set (blocks (Suc h) bs)"
  shows "fits s asize (bptr z) = Inr (unat asize \<le> 8 * k)"
proof -
  have ma: "(z, k, False) \<in> set (all_blocks h bs)" using m by (simp add: all_blocks_def)
  note rz = blk_reads [OF t ma]
  have k32: "8 * k < 2 ^ 32" using all_blocks_tags [OF t ma] by simp
  then have "unat (of_nat (8 * k) :: addr) = 8 * k" by (intro unat_of_nat64) simp
  then have "(asize \<le> of_nat (8 * k)) = (unat asize \<le> 8 * k)"
    by (simp add: word_le_nat_alt del: of_nat_mult)
  then show ?thesis
    unfolding fits_def rz(1,2) exec_simps ucast_sz [OF k32] by simp
qed

lemma find_fit_from_ok:
  assumes hk: "heap_ok s h bs fl"
  shows "fl = us @ ws \<Longrightarrow>
         find_fit_from s asize (bptr (hd (ws @ [h]))) =
           Some (Inr (case List.find (\<lambda>z. unat asize \<le> 8 * bsize h bs z) ws of
                        None \<Rightarrow> 0 | Some z \<Rightarrow> bptr z))"
proof (induction ws arbitrary: us)
  case Nil
  have "heap_listp s = bptr h" using hk by (auto simp: heap_ok_alt dest: tags_ok_heap_listp)
  then show ?case by (subst find_fit_from.simps) simp
next
  case (Cons z ws)
  let ?e = "Suc (h + total bs)"
  have t: "tags_ok s h bs" and l: "list_ok s h fl"
    and eq: "set fl = set (frees (Suc h) bs)"
    using hk by (simp_all add: heap_ok_alt)
  have r: "region s h ?e" by (rule tags_ok_region [OF t])
  have hl: "heap_listp s = bptr h" by (rule tags_ok_heap_listp [OF t])
  have zf: "z \<in> set (frees (Suc h) bs)" using eq Cons.prems by auto
  from free_block [OF t zf] obtain k where k: "(z, k, False) \<in> set (blocks (Suc h) bs)" by metis
  have sg: "seg s (Suc h) bs" using t by (simp add: tags_ok_def)
  have bk: "bsize h bs z = k" by (rule bsize_eq [OF sg k])
  have zb: "h < z" "z < ?e" using node_bounds [OF t zf] by auto
  have ne: "bptr z \<noteq> heap_listp s" unfolding hl by (rule node_ptr_neq [OF t zf])
  have d: "dll s h h (us @ z # ws) h" using l Cons.prems by (simp add: list_ok_def)
  have f: "dw_hi s (Suc z) = off (hd (ws @ [h]) - h)" using dll_fields [OF d] by simp
  have nx: "h \<le> hd (ws @ [h]) \<and> hd (ws @ [h]) < ?e"
  proof (cases ws)
    case Nil then show ?thesis by simp
  next
    case (Cons n ws')
    then have "n \<in> set (frees (Suc h) bs)" using eq \<open>fl = us @ z # ws\<close> by auto
    then show ?thesis using node_bounds [OF t, of n] Cons by auto
  qed
  have gs: "GET_SUCC s (bptr z) = Inr (bptr (hd (ws @ [h])))"
    using zb nx by (intro R_GET_SUCC [OF r _ _ f]) auto
  have ih: "find_fit_from s asize (bptr (hd (ws @ [h]))) =
           Some (Inr (case List.find (\<lambda>z. unat asize \<le> 8 * bsize h bs z) ws of
                        None \<Rightarrow> 0 | Some z \<Rightarrow> bptr z))"
    using Cons.IH [of "us @ [z]"] Cons.prems by simp
  show ?case
    by (subst find_fit_from.simps) (simp add: ne fits_node [OF t k] gs ih bk)
qed

lemma find_fit_ok:
  assumes hk: "heap_ok s h bs fl"
  shows "find_fit s asize =
           Some (Inr (case List.find (\<lambda>z. unat asize \<le> 8 * bsize h bs z) fl of
                        None \<Rightarrow> 0 | Some z \<Rightarrow> bptr z))"
proof -
  have "first_free s = bptr (hd (fl @ [h]))" using hk by (simp add: heap_ok_def)
  then show ?thesis
    unfolding find_fit_def using find_fit_from_ok [OF hk, of "[]" fl asize] by simp
qed

section \<open>malloc\<close>

lemma adjust_size_dw:
  assumes "unat sz + 15 < 2 ^ 64"
  shows "adjust_size sz = of_nat (8 * asz sz)"
proof (cases "sz \<le> 16")
  case True
  then have "unat sz \<le> 16" by (simp add: word_le_nat_alt)
  then show ?thesis using True by (simp add: adjust_size_small asz_def)
next
  case False
  then have g: "16 < sz" by simp
  then have "\<not> unat sz \<le> 16" by (simp add: word_less_nat_alt)
  moreover have "adjust_size sz = of_nat (unat (adjust_size sz))" by simp
  ultimately show ?thesis
    unfolding unat_adjust_size [OF g assms] by (simp add: asz_def del: of_nat_mult of_nat_unat)
qed

lemma asz_ge3: "3 \<le> asz sz"
  unfolding asz_def by (cases "unat sz \<le> 16") simp_all

lemma asz_room: "unat sz + 8 \<le> 8 * asz sz"
  unfolding asz_def by (cases "unat sz \<le> 16") simp_all

lemma asz_lt: "unat sz + 15 < 2 ^ 64 \<Longrightarrow> 8 * asz sz < 2 ^ 64"
  unfolding asz_def by (cases "unat sz \<le> 16") simp_all

lemma max_dw:
  assumes "8 * a < 2 ^ 64"
  shows "max (of_nat (8 * a) :: addr) 512 = of_nat (8 * max a 64)"
proof -
  have u: "unat (of_nat (8 * a) :: addr) = 8 * a" by (rule unat_of_nat64 [OF assms])
  have "(of_nat (8 * a) :: addr) \<le> 512 \<longleftrightarrow> a \<le> 64"
    unfolding word_le_nat_alt u by simp
  then show ?thesis by (auto simp: max_def)
qed

lemma words_dw:
  assumes "8 * k < 2 ^ 64"
  shows "(of_nat (8 * k) :: addr) div 4 = of_nat (2 * k)"
proof -
  have u: "unat (of_nat (8 * k) :: addr) = 8 * k" by (rule unat_of_nat64 [OF assms])
  have "(of_nat (8 * k) :: addr) div 4 = of_nat (unat ((of_nat (8 * k) :: addr) div 4))" by simp
  also have "unat ((of_nat (8 * k) :: addr) div 4) = 2 * k"
    unfolding unat_div u by simp
  finally show ?thesis .
qed

lemma extend_size_dw:
  assumes "8 * k < 2 ^ 64"
  shows "(if (of_nat (2 * k) :: addr) mod 2 \<noteq> 0 then (of_nat (2 * k) + 1) * 4 else of_nat (2 * k) * 4)
         = (of_nat (8 * k) :: addr)"
proof -
  have u: "unat (of_nat (2 * k) :: addr) = 2 * k" using assms by (intro unat_of_nat64) simp
  have "unat ((of_nat (2 * k) :: addr) mod 2) = 0"
    unfolding unat_mod u by simp
  then have "(of_nat (2 * k) :: addr) mod 2 = 0" by (simp add: unat_eq_zero)
  then show ?thesis by simp
qed

lemma place_ok:
  assumes hk: "heap_ok s h bs fl" and bs: "bs = xs @ (c, False) # ys"
    and x: "x = Suc (h + total xs)" and fl: "fl = us @ x # vs"
    and a: "3 \<le> a" "a \<le> c"
  shows "\<exists>s'. place s (bptr x) (of_nat (8 * a)) = Inr s' \<and>
           heap_ok s' h (placed_bs xs a c ys) (placed_fl us x a c vs) \<and>
           (\<forall>d. x < d \<and> d < x + a \<longrightarrow> dw_lo s' d = dw_lo s d \<and> dw_hi s' d = dw_hi s d)"
proof (cases "3 \<le> c - a")
  case True
  then show ?thesis
    using place_split_ok [OF hk bs x fl a True] by (simp add: placed_bs_def placed_fl_def)
next
  case False
  from place_whole_ok [OF hk bs x fl a False] obtain s' where
    "place s (bptr x) (of_nat (8 * a)) = Inr s'" "heap_ok s' h (xs @ (c, True) # ys) (us @ vs)"
    "\<forall>d. x < d \<and> d < x + c \<longrightarrow> dw_lo s' d = dw_lo s d \<and> dw_hi s' d = dw_hi s d" by blast
  then show ?thesis
    using False a(2) by (intro exI [of _ s']) (simp add: placed_bs_def placed_fl_def)
qed

lemma placed_total: "a \<le> c \<Longrightarrow> total (placed_bs xs a c ys) = total (xs @ (c, False) # ys)"
  by (simp add: placed_bs_def)

lemma placed_naf: "naf (xs @ (c, False) # ys) \<Longrightarrow> naf (placed_bs xs a c ys)"
  by (auto simp: placed_bs_def naf_append naf_Cons)

lemma placed_block:
  "x = Suc (h + total xs) \<Longrightarrow>
   (x, if 3 \<le> c - a then a else c, True) \<in> set (blocks (Suc h) (placed_bs xs a c ys))"
  by (simp add: placed_bs_def blocks_append)

lemma placed_keeps: "keeps_alloc h (xs @ (c, False) # ys) (placed_bs xs a c ys)"
  by (auto simp: keeps_alloc_def placed_bs_def blocks_append add.assoc)

lemma unat_adjust:
  assumes "unat sz + 15 < 2 ^ 64"
  shows "unat (adjust_size sz) = 8 * asz sz"
  unfolding adjust_size_dw [OF assms] by (rule unat_of_nat64 [OF asz_lt [OF assms]])

lemma malloc_fit_at:
  assumes hk: "heap_ok s h bs fl" and nz: "sz \<noteq> 0" and nw: "unat sz + 15 < 2 ^ 64"
    and bs: "bs = xs @ (c, False) # ys" and x: "x = Suc (h + total xs)"
    and fl: "fl = us @ x # vs"
    and f: "List.find (\<lambda>z. unat (adjust_size sz) \<le> 8 * bsize h bs z) fl = Some x"
  shows "\<exists>s'. asz sz \<le> c \<and> malloc s sz = Some (Inr (bptr x, s')) \<and>
           place s (bptr x) (adjust_size sz) = Inr s' \<and>
           heap_ok s' h (placed_bs xs (asz sz) c ys) (placed_fl us x (asz sz) c vs) \<and>
           (\<forall>d. x < d \<and> d < x + asz sz \<longrightarrow> dw_lo s' d = dw_lo s d \<and> dw_hi s' d = dw_hi s d)"
proof -
  have t: "tags_ok s h bs" and eq: "set fl = set (frees (Suc h) bs)"
    using hk by (simp_all add: heap_ok_alt)
  have li: "lazy_init s = Inr s" by (rule lazy_init_ok [OF t])
  have fx: "unat (adjust_size sz) \<le> 8 * bsize h bs x"
    using f by (auto simp: find_Some_iff)
  have c: "(x, c, False) \<in> set (blocks (Suc h) bs)" by (simp add: bs x blocks_append)
  then have zf: "x \<in> set (frees (Suc h) bs)" by (auto simp: frees_iff)
  have sg: "seg s (Suc h) bs" using t by (simp add: tags_ok_def)
  have bk: "bsize h bs x = c" by (rule bsize_eq [OF sg c])
  have ac: "asz sz \<le> c" using fx unfolding unat_adjust [OF nw] bk by simp
  from place_ok [OF hk bs x fl asz_ge3 ac] obtain s' where
    pl: "place s (bptr x) (of_nat (8 * asz sz)) = Inr s'"
    and hk': "heap_ok s' h (placed_bs xs (asz sz) c ys) (placed_fl us x (asz sz) c vs)"
    and fm: "\<forall>d. x < d \<and> d < x + asz sz \<longrightarrow> dw_lo s' d = dw_lo s d \<and> dw_hi s' d = dw_hi s d"
    by blast
  have xb: "8 * x + 8 < 2 ^ 64" using node_bounds [OF t zf] tags_ok_bound [OF t] by simp
  have ff: "find_fit s (adjust_size sz) = Some (Inr (bptr x))"
    unfolding find_fit_ok [OF hk] f by simp
  have "malloc s sz = Some (Inr (bptr x, s'))"
    using nz bptr_nz [OF xb]
    by (simp add: malloc_def li Let_def adjust_size_dw [OF nw]
          ff [unfolded adjust_size_dw [OF nw]] pl del: of_nat_mult)
  then show ?thesis using ac hk' fm pl [folded adjust_size_dw [OF nw]] by blast
qed

lemma malloc_fit:
  assumes hk: "heap_ok s h bs fl" and nz: "sz \<noteq> 0" and nw: "unat sz + 15 < 2 ^ 64"
    and f: "List.find (\<lambda>z. unat (adjust_size sz) \<le> 8 * bsize h bs z) fl = Some x"
  shows "\<exists>s' xs c ys us vs. bs = xs @ (c, False) # ys \<and> x = Suc (h + total xs) \<and>
           fl = us @ x # vs \<and> asz sz \<le> c \<and>
           malloc s sz = Some (Inr (bptr x, s')) \<and>
           place s (bptr x) (adjust_size sz) = Inr s' \<and>
           heap_ok s' h (placed_bs xs (asz sz) c ys) (placed_fl us x (asz sz) c vs)"
proof -
  have t: "tags_ok s h bs" and eq: "set fl = set (frees (Suc h) bs)"
    using hk by (simp_all add: heap_ok_alt)
  have xm: "x \<in> set fl" using f by (auto simp: find_Some_iff)
  from split_list [OF xm] obtain us vs where fl: "fl = us @ x # vs" by blast
  have zf: "x \<in> set (frees (Suc h) bs)" using eq xm by simp
  from free_block [OF t zf] obtain c where c: "(x, c, False) \<in> set (blocks (Suc h) bs)" by metis
  from blocks_split [OF c] obtain xs ys where bs: "bs = xs @ (c, False) # ys"
    and x: "x = Suc (h + total xs)" by auto
  from malloc_fit_at [OF hk nz nw bs x fl f] show ?thesis using bs x fl by blast
qed

lemma heap_ok_brk:
  "heap_ok s h bs fl \<Longrightarrow> unat (mem_brk s) = 8 * Suc (h + total bs) + 8"
  by (simp add: heap_ok_def region_def)

lemma fresh_block:
  assumes sg: "seg s1 (Suc h) bs1" and rb: "(r, J, False) \<in> set (blocks (Suc h) bs1)"
    and ka: "keeps_alloc h bs bs1"
  shows "(r, k', True) \<notin> set (blocks (Suc h) bs)"
proof
  assume "(r, k', True) \<in> set (blocks (Suc h) bs)"
  then have m: "(r, k', True) \<in> set (blocks (Suc h) bs1)" using ka by (simp add: keeps_alloc_def)
  have "3 \<le> J" "3 \<le> k'" using seg_min [OF sg rb] seg_min [OF sg m] by auto
  then show False using blocks_unique [OF rb m] by simp
qed

lemma malloc_nofit:
  assumes hk: "heap_ok s h bs fl" and nz: "sz \<noteq> 0" and nw: "unat sz + 15 < 2 ^ 64"
    and f: "List.find (\<lambda>z. unat (adjust_size sz) \<le> 8 * bsize h bs z) fl = None"
    and k: "k = max (asz sz) 64" and e: "e = Suc (h + total bs)"
  shows "if 8 * e + 8 + 8 * k \<le> unat (mem_max_addr s)
         then \<exists>s1 s' bs' fl' r j.
                extend_heap s (of_nat (2 * k)) = Inr (bptr r, s1) \<and>
                place s1 (bptr r) (adjust_size sz) = Inr s' \<and>
                malloc s sz = Some (Inr (bptr r, s')) \<and> heap_ok s' h bs' fl' \<and>
                total bs' = total bs + k \<and> (r, j, True) \<in> set (blocks (Suc h) bs') \<and>
                asz sz \<le> j \<and> j < asz sz + 3 \<and> r \<le> e \<and> keeps_alloc h bs bs' \<and>
                (naf bs \<longrightarrow> naf bs') \<and>
                (\<forall>k'. (r, k', True) \<notin> set (blocks (Suc h) bs))
         else malloc s sz = Some (Inr (0, s))"
proof -
  let ?a = "asz sz"
  have t: "tags_ok s h bs" using hk by (simp add: heap_ok_alt)
  have li: "lazy_init s = Inr s" by (rule lazy_init_ok [OF t])
  have a64: "8 * ?a < 2 ^ 64" by (rule asz_lt [OF nw])
  have k64: "8 * k < 2 ^ 64" using a64 by (simp add: k max_def)
  have k3: "3 \<le> k" by (simp add: k)
  have ak: "?a \<le> k" by (simp add: k)
  have ff: "find_fit s (of_nat (8 * ?a)) = Some (Inr 0)"
    using find_fit_ok [OF hk, of "adjust_size sz"] f
    by (simp add: adjust_size_dw [OF nw] del: of_nat_mult)
  have ex: "max (of_nat (8 * ?a) :: addr) 512 div 4 = of_nat (2 * k)"
    unfolding max_dw [OF a64] k [symmetric] by (rule words_dw [OF k64])
  have m: "malloc s sz = Some (bind_res (extend_heap s (of_nat (2 * k))) (\<lambda>(bp, s1).
             if bp = 0 then Inr (0, s1)
             else bind_res (place s1 bp (of_nat (8 * ?a))) (\<lambda>s2. Inr (bp, s2))))"
    using nz by (simp add: malloc_def li Let_def adjust_size_dw [OF nw] ff ex del: of_nat_mult)
  note eh = extend_heap_ok [OF hk extend_size_dw [OF k64] k3 k64 e]
  show ?thesis
  proof (cases "8 * e + 8 + 8 * k \<le> unat (mem_max_addr s)")
    case False
    then have "extend_heap s (of_nat (2 * k)) = Inr (0, s)" using eh by simp
    then show ?thesis using False by (simp add: m)
  next
    case True
    then obtain s1 bs1 fl1 r J where
      x1: "extend_heap s (of_nat (2 * k)) = Inr (bptr r, s1)"
      and hk1: "heap_ok s1 h bs1 (r # fl1)" and tot1: "total bs1 = total bs + k"
      and rb: "(r, J, False) \<in> set (blocks (Suc h) bs1)" and re: "r \<le> e" "e + k \<le> r + J"
      and ka1: "keeps_alloc h bs bs1" and naf1: "naf bs \<longrightarrow> naf bs1"
      using eh by auto
    from blocks_split [OF rb] obtain xs ys where bs1: "bs1 = xs @ (J, False) # ys"
      and r: "r = Suc (h + total xs)" by auto
    have aJ: "?a \<le> J" using re ak by linarith
    have fl1: "r # fl1 = [] @ r # fl1" by simp
    from place_ok [OF hk1 bs1 r fl1 asz_ge3 aJ] obtain s2 where
      pl: "place s1 (bptr r) (of_nat (8 * ?a)) = Inr s2"
      and hk2: "heap_ok s2 h (placed_bs xs ?a J ys) (placed_fl [] r ?a J fl1)" by blast
    have t1: "tags_ok s1 h bs1" using hk1 by (simp add: heap_ok_alt)
    have "r \<in> set (frees (Suc h) bs1)" using rb by (auto simp: frees_iff)
    then have rb64: "8 * r + 8 < 2 ^ 64" using node_bounds [OF t1] tags_ok_bound [OF t1] by fastforce
    have rnz: "bptr r \<noteq> 0" by (rule bptr_nz [OF rb64])
    have mm: "malloc s sz = Some (Inr (bptr r, s2))"
      unfolding m x1 using rnz by (simp add: pl del: of_nat_mult)
    let ?j = "if 3 \<le> J - ?a then ?a else J"
    have 1: "total (placed_bs xs ?a J ys) = total bs + k"
      using placed_total [OF aJ, of xs ys] tot1 bs1 by simp
    have 2: "(r, ?j, True) \<in> set (blocks (Suc h) (placed_bs xs ?a J ys))"
      by (rule placed_block [OF r])
    have 3: "?a \<le> ?j" "?j < ?a + 3" using aJ by auto
    have 4: "keeps_alloc h bs (placed_bs xs ?a J ys)"
      using keeps_alloc_trans [OF ka1] placed_keeps [of h xs J ys ?a] bs1 by simp
    have 5: "naf bs \<longrightarrow> naf (placed_bs xs ?a J ys)"
      using naf1 placed_naf [of xs J ys ?a] bs1 by simp
    have sg1: "seg s1 (Suc h) bs1" using t1 by (simp add: tags_ok_def)
    have 6: "\<forall>k'. (r, k', True) \<notin> set (blocks (Suc h) bs)"
      using fresh_block [OF sg1 rb ka1] by simp
    have "\<exists>s1 s' bs' fl' r j.
                extend_heap s (of_nat (2 * k)) = Inr (bptr r, s1) \<and>
                place s1 (bptr r) (adjust_size sz) = Inr s' \<and>
                malloc s sz = Some (Inr (bptr r, s')) \<and> heap_ok s' h bs' fl' \<and>
                total bs' = total bs + k \<and> (r, j, True) \<in> set (blocks (Suc h) bs') \<and>
                asz sz \<le> j \<and> j < asz sz + 3 \<and> r \<le> e \<and> keeps_alloc h bs bs' \<and>
                (naf bs \<longrightarrow> naf bs') \<and>
                (\<forall>k'. (r, k', True) \<notin> set (blocks (Suc h) bs))"
      using x1 pl [folded adjust_size_dw [OF nw]] mm hk2 1 2 3 re(1) 4 5 6 by blast
    then show ?thesis using True by simp
  qed
qed

lemma malloc_ok:
  assumes hk: "heap_ok s h bs fl" and nz: "sz \<noteq> 0" and nw: "unat sz + 15 < 2 ^ 64"
  shows "\<exists>p s' bs' fl'. malloc s sz = Some (Inr (p, s')) \<and> heap_ok s' h bs' fl' \<and>
           keeps_alloc h bs bs' \<and> (naf bs \<longrightarrow> naf bs') \<and>
           (p = 0 \<and> s' = s \<or>
            (\<exists>r j. p = bptr r \<and> p \<noteq> 0 \<and> (r, j, True) \<in> set (blocks (Suc h) bs') \<and> asz sz \<le> j \<and>
                   (\<forall>k'. (r, k', True) \<notin> set (blocks (Suc h) bs))))"
proof (cases "List.find (\<lambda>z. unat (adjust_size sz) \<le> 8 * bsize h bs z) fl")
  case (Some x)
  let ?a = "asz sz"
  from malloc_fit [OF hk nz nw Some] obtain s' xs c ys us vs where
    bs: "bs = xs @ (c, False) # ys" and x: "x = Suc (h + total xs)"
    and fl: "fl = us @ x # vs" and ac: "?a \<le> c"
    and m: "malloc s sz = Some (Inr (bptr x, s'))"
    and hk': "heap_ok s' h (placed_bs xs ?a c ys) (placed_fl us x ?a c vs)" by blast
  have t: "tags_ok s h bs" using hk by (simp add: heap_ok_alt)
  have sg: "seg s (Suc h) bs" using t by (simp add: tags_ok_def)
  have xb: "(x, c, False) \<in> set (blocks (Suc h) bs)" by (simp add: bs x blocks_append)
  then have "x \<in> set (frees (Suc h) bs)" by (auto simp: frees_iff)
  then have "8 * x + 8 < 2 ^ 64" using node_bounds [OF t] tags_ok_bound [OF t] by fastforce
  then have nzp: "bptr x \<noteq> 0" by (rule bptr_nz)
  have 1: "keeps_alloc h bs (placed_bs xs ?a c ys)" unfolding bs by (rule placed_keeps)
  have 2: "naf bs \<longrightarrow> naf (placed_bs xs ?a c ys)" unfolding bs using placed_naf by blast
  have 3: "(x, if 3 \<le> c - ?a then ?a else c, True) \<in> set (blocks (Suc h) (placed_bs xs ?a c ys))"
    by (rule placed_block [OF x])
  have 4: "?a \<le> (if 3 \<le> c - ?a then ?a else c)" using ac by simp
  have 5: "\<forall>k'. (x, k', True) \<notin> set (blocks (Suc h) bs)"
    using fresh_block [OF sg xb keeps_alloc_refl] by simp
  show ?thesis using m hk' 1 2 3 4 5 nzp by blast
next
  case None
  define k where "k = max (asz sz) 64"
  define e where "e = Suc (h + total bs)"
  note mn = malloc_nofit [OF hk nz nw None k_def e_def]
  show ?thesis
  proof (cases "8 * e + 8 + 8 * k \<le> unat (mem_max_addr s)")
    case False
    then have "malloc s sz = Some (Inr (0, s))" using mn by simp
    then show ?thesis using hk by auto
  next
    case True
    then obtain s' bs' fl' r j where
      m: "malloc s sz = Some (Inr (bptr r, s'))" and hk': "heap_ok s' h bs' fl'"
      and rb: "(r, j, True) \<in> set (blocks (Suc h) bs')" and aj: "asz sz \<le> j"
      and ka: "keeps_alloc h bs bs'" and nf: "naf bs \<longrightarrow> naf bs'"
      and fr: "\<forall>k'. (r, k', True) \<notin> set (blocks (Suc h) bs)"
      using mn by auto
    have t': "tags_ok s' h bs'" using hk' by (simp add: heap_ok_alt)
    have "r + j \<le> Suc (h + total bs')" using blocks_bounds [OF rb] by simp
    then have "8 * r + 8 < 2 ^ 64" using tags_ok_bound [OF t'] by simp
    then have nzp: "bptr r \<noteq> 0" by (rule bptr_nz)
    show ?thesis using m hk' rb aj ka nf fr nzp by blast
  qed
qed

section \<open>mm_init\<close>

lemma heap_listp_upd_dw [simp]:
  "dw_lo (s\<lparr>heap_listp := b\<rparr>) d = dw_lo s d" "dw_hi (s\<lparr>heap_listp := b\<rparr>) d = dw_hi s d"
  by (simp_all add: dw_lo_def dw_hi_def)


lemma of_nat_not_minus1: "8 * e < 2 ^ 64 \<Longrightarrow> ((of_nat (8 * e) :: addr) = - 1) = False"
proof -
  assume b: "8 * e < 2 ^ 64"
  have "unat (of_nat (8 * e) :: addr) = 8 * e" by (rule unat_of_nat64 [OF b])
  moreover have "unat (- 1 :: addr) = 2 ^ 64 - 1"
    by (simp add: unsigned_minus_1_eq_mask mask_eq_exp_minus_1)
  moreover have "8 * e \<noteq> (2 ^ 64 - 1 :: nat)"
  proof
    assume a: "8 * e = (2 ^ 64 - 1 :: nat)"
    have "even (8 * e)" by simp
    moreover have "odd (2 ^ 64 - 1 :: nat)" by simp
    ultimately show False using a by simp
  qed
  ultimately have "unat (of_nat (8 * e) :: addr) \<noteq> unat (- 1 :: addr)" by simp
  then show ?thesis by auto
qed

lemma mm_init_prologue:
  assumes f: "fresh s h" and room: "8 * h + 16 \<le> unat (mem_max_addr s)"
  shows "\<exists>s7. heap_ok s7 h [] [] \<and> mem_max_addr s7 = mem_max_addr s \<and>
           mm_init s = bind_res (extend_heap s7 128) (\<lambda>(bp, s8).
              if bp = 0 then Inr (- 1, s8) else Inr (0, s8))"
proof -
  have mh: "unat (mem_heap s) = 8 * h" and mb: "mem_brk s = mem_heap s"
    and span: "unat (mem_max_addr s) < 8 * h + 2 ^ 32"
    using f by (simp_all add: fresh_def)
  have b64: "8 * h + 16 < 2 ^ 64" using room unat_lt64 [of "mem_max_addr s"] by linarith
  have p: "mem_heap s = of_nat (8 * h)" using mh [symmetric] by (simp del: of_nat_mult)
  let ?p = "of_nat (8 * h) :: addr"
  let ?s1 = "s\<lparr>mem_brk := ?p + 16, heap_listp := ?p\<rparr>"
  have up: "unat ?p = 8 * h" using mh unfolding p .
  have sb: "mem_sbrk s 16 = (?p, s\<lparr>mem_brk := ?p + 16\<rparr>)"
    using room by (simp add: mem_sbrk_def mb p up del: of_nat_mult)
  have nm: "(?p = - 1) = False" using b64 by (intro of_nat_not_minus1) simp
  have ub: "unat (?p + 16) = 8 * h + 16"
    using b64 unat_of_nat64 [of "8 * h + 16"] by (simp del: of_nat_mult)
  have f1: "unat (mem_heap ?s1) = 8 * h" "8 * h + 16 \<le> unat (mem_max_addr ?s1)"
    using mh room by simp_all
  let ?s2 = "set_lo ?s1 h 0"
  let ?s3 = "set_hi ?s2 h (tag 1 True)"
  let ?s4 = "set_lo ?s3 (Suc h) (tag 1 True)"
  let ?s5 = "set_hi ?s4 (Suc h) (tag 0 True)"
  let ?s7 = "?s5\<lparr>heap_listp := bptr h, first_free := bptr h\<rparr>"
  have a: "?p + 4 = of_nat (8 * h + 4)" "?p + 12 = of_nat (8 * Suc h + 4)" "?p + 8 = bptr h"
    by (simp_all add: bptr_def)
  have pk: "PACK 8 1 = tag 1 True" "PACK 0 1 = tag 0 True" by (simp_all add: tag_def)
  have P1: "PUT ?s1 ?p 0 = Inr ?s2" using f1 by (intro PUT_lo) simp_all
  have P2: "PUT ?s2 (?p + 4) (tag 1 True) = Inr ?s3"
    unfolding a(1) using f1 by (intro PUT_hi) simp_all
  have P3: "PUT ?s3 (bptr h) (tag 1 True) = Inr ?s4"
    unfolding bptr_lo using f1 by (intro PUT_lo) simp_all
  have P4: "PUT ?s4 (?p + 12) (tag 0 True) = Inr ?s5"
    unfolding a(2) using f1 by (intro PUT_hi) simp_all
  have hl: "heap_listp ?s1 = ?p" "heap_listp ?s2 = ?p" "heap_listp ?s3 = ?p"
    "heap_listp ?s4 = ?p" "heap_listp ?s5 = ?p" by simp_all
  have m: "mm_init s = bind_res (extend_heap ?s7 128) (\<lambda>(bp, s8).
              if bp = 0 then Inr (- 1, s8) else Inr (0, s8))"
    unfolding mm_init_def
    by (simp add: sb nm Let_def a(3) pk P1 P2 P3 P4 del: of_nat_mult of_nat_add One_nat_def)
  have d61: "h < 2 ^ 61" "Suc h < 2 ^ 61" using b64 by simp_all
  have f2: "unat (mem_brk ?s1) = 8 * h + 16" using ub by simp
  have r: "region ?s7 h (Suc h)"
    using f1 f2 room span by (simp add: region_def)
  have "heap_ok ?s7 h [] []"
    using r d61 by (simp add: heap_ok_def)
  moreover have "mem_max_addr ?s7 = mem_max_addr s" by simp
  ultimately show ?thesis using m by blast
qed



lemma mm_init_small:
  assumes f: "fresh s h" and room: "8 * h + 16 \<le> unat (mem_max_addr s)"
    and small: "\<not> 8 * h + 528 \<le> unat (mem_max_addr s)"
  shows "\<exists>s'. mm_init s = Inr (- 1, s') \<and> heap_ok s' h [] []"
proof -
  from mm_init_prologue [OF f room] obtain s7 where hk7: "heap_ok s7 h [] []"
    and mx: "mem_max_addr s7 = mem_max_addr s"
    and m: "mm_init s = bind_res (extend_heap s7 128) (\<lambda>(bp, s8).
              if bp = 0 then Inr (- 1, s8) else Inr (0, s8))" by auto
  have sz: "(if (128 :: addr) mod 2 \<noteq> 0 then (128 + 1) * 4 else 128 * 4) = of_nat (8 * 64)"
    by simp
  have "\<not> 8 * Suc (h + total []) + 8 + 8 * 64 \<le> unat (mem_max_addr s7)" using small mx by simp
  with extend_heap_ok [OF hk7 sz _ _ refl] have "extend_heap s7 128 = Inr (0, s7)" by auto
  then have "mm_init s = Inr (- 1, s7)" by (simp add: m)
  then show ?thesis using hk7 by auto
qed

lemma mm_init_fail:
  assumes f: "fresh s h" and room: "\<not> 8 * h + 16 \<le> unat (mem_max_addr s)"
  shows "mm_init s = Inr (- 1, s\<lparr>heap_listp := - 1\<rparr>)"
proof -
  have mh: "unat (mem_heap s) = 8 * h" and mb: "mem_brk s = mem_heap s"
    using f by (simp_all add: fresh_def)
  have "mem_sbrk s 16 = (- 1, s)" using room by (simp add: mem_sbrk_def mb mh)
  then show ?thesis by (simp add: mm_init_def)
qed

section \<open>memcpy and memset into a payload\<close>

lemma outside_range:
  fixes a dst n :: addr
  assumes "unat a < unat dst \<or> unat dst + unat n \<le> unat a" "unat dst + unat n \<le> 2 ^ 64"
  shows "(a - dst < n) = False"
  using assms unat_lt64 [of a] by (auto simp: word_less_nat_alt unat_sub_if')

lemma range_load32:
  fixes dst n :: addr
  assumes a: "a + 4 \<le> unat dst \<or> unat dst + unat n \<le> a" and b: "a + 4 \<le> 2 ^ 64"
    and c: "unat dst + unat n \<le> 2 ^ 64"
  shows "load32 (\<lambda>q. if q - dst < n then f q else m q) (of_nat a) = load32 m (of_nat a)"
proof -
  have "(of_nat a + of_nat i - dst < n) = False" if "i < 4" for i :: nat
  proof -
    have "unat (of_nat (a + i) :: addr) = a + i" using that b by (intro unat_of_nat64) simp
    then have "unat (of_nat a + of_nat i :: addr) = a + i" by simp
    then show ?thesis using a that by (intro outside_range [OF _ c]) auto
  qed
  from this [of 0] this [of 1] this [of 2] this [of 3]
  show ?thesis by (simp add: load32_def)
qed

lemma payload_dw:
  fixes n :: addr
  assumes n: "unat n + 8 \<le> 8 * j" and b: "8 * (r + j) + 8 \<le> 2 ^ 64"
    and s': "s' = s\<lparr>mem := (\<lambda>q. if q - bptr r < n then f q else mem s q)\<rparr>"
    and d: "d \<le> r \<or> r + j \<le> d"
  shows "dw_lo s' d = dw_lo s d" "dw_hi s' d = dw_hi s d"
proof -
  have "1 \<le> j" using n by simp
  then have "8 * r + 8 < 2 ^ 64" using b by simp
  then have ub: "unat (bptr r) = 8 * r + 8" by (rule unat_bptr)
  have c: "unat (bptr r) + unat n \<le> 2 ^ 64" using ub n b by simp
  show "dw_lo s' d = dw_lo s d"
  proof (cases "d < 2 ^ 61")
    case True
    have "load32 (\<lambda>q. if q - bptr r < n then f q else mem s q) (of_nat (8 * d)) =
          load32 (mem s) (of_nat (8 * d))"
      using d n True ub by (intro range_load32 [OF _ _ c]) auto
    then show ?thesis by (simp add: dw_lo_def s' del: of_nat_mult)
  qed (simp add: dw_lo_def)
  show "dw_hi s' d = dw_hi s d"
  proof (cases "d < 2 ^ 61")
    case True
    have "load32 (\<lambda>q. if q - bptr r < n then f q else mem s q) (of_nat (8 * d + 4)) =
          load32 (mem s) (of_nat (8 * d + 4))"
      using d n True ub by (intro range_load32 [OF _ _ c]) auto
    then show ?thesis by (simp add: dw_hi_def s' del: of_nat_mult of_nat_add)
  qed (simp add: dw_hi_def)
qed

lemma payload_frame:
  assumes hk: "heap_ok s h bs fl" and m: "(r, j, True) \<in> set (blocks (Suc h) bs)"
    and lo: "\<And>d. d \<le> r \<or> r + j \<le> d \<Longrightarrow> dw_lo s' d = dw_lo s d"
    and hi: "\<And>d. d \<le> r \<or> r + j \<le> d \<Longrightarrow> dw_hi s' d = dw_hi s d"
    and sr: "same_region s s'" and ff: "first_free s' = first_free s"
  shows "heap_ok s' h bs fl"
proof -
  let ?e = "Suc (h + total bs)"
  have t: "tags_ok s h bs" and l: "list_ok s h fl"
    and eq: "set fl = set (frees (Suc h) bs)"
    using hk by (simp_all add: heap_ok_alt)
  have sg: "seg s (Suc h) bs" using t by (simp add: tags_ok_def)
  have rb: "Suc h \<le> r" "r + j \<le> ?e" using blocks_bounds [OF m] by auto
  have 1: "region s' h ?e" using t same_region_region [OF sr] by (simp add: tags_ok_def)
  have 2: "dw_hi s' h = tag 1 True" "dw_lo s' (Suc h) = tag 1 True"
    "dw_hi s' ?e = tag 0 True"
    using t rb by (simp_all add: tags_ok_def hi lo)
  have "dw_hi s' y = dw_hi s y \<and> dw_lo s' (y + k) = dw_lo s (y + k)"
    if b: "(y, k, al) \<in> set (blocks (Suc h) bs)" for y k al
    using blocks_apart [OF b m] by (intro conjI hi lo) auto
  then have 3: "seg s' (Suc h) bs" using sg seg_cong [of "Suc h" bs s' s] by blast
  have "dw_lo s' (Suc z) = dw_lo s (Suc z) \<and> dw_hi s' (Suc z) = dw_hi s (Suc z)"
    if z: "z \<in> set fl" for z
  proof -
    from z eq have "z \<in> set (frees (Suc h) bs)" by simp
    from free_block [OF t this] obtain k where k: "(z, k, False) \<in> set (blocks (Suc h) bs)"
      "3 \<le> k" by metis
    from blocks_apart [OF k(1) m] k(2) have "Suc z \<le> r \<or> r + j \<le> Suc z" by auto
    then show ?thesis by (intro conjI hi lo)
  qed
  then have 4: "dll s' h h fl h = dll s h h fl h" by (rule dll_cong)
  show ?thesis
    using 1 2 3 4 l eq ff by (simp add: heap_ok_def list_ok_def)
qed

lemma in_block:
  assumes t: "tags_ok s h bs" and m: "(x, k, al) \<in> set (blocks (Suc h) bs)"
    and n: "n \<le> 8 * k"
  shows "in_heap s (bptr x) n"
proof -
  let ?e = "Suc (h + total bs)"
  have r: "region s h ?e" by (rule tags_ok_region [OF t])
  have xb: "Suc h \<le> x" "x + k \<le> ?e" using blocks_bounds [OF m] by auto
  have "8 * x + 8 < 2 ^ 64" using xb region_bound [OF r] by simp
  then have "unat (bptr x) = 8 * x + 8" by (rule unat_bptr)
  then show ?thesis using r xb n by (simp add: in_heap_def region_def)
qed

lemma memcpy_ok:
  assumes hk: "heap_ok s h bs fl" and m: "(r, j, True) \<in> set (blocks (Suc h) bs)"
    and n: "unat n + 8 \<le> 8 * j" and src: "in_heap s src (unat n)"
  shows "\<exists>s'. memcpy s (bptr r) src n = Inr s' \<and> heap_ok s' h bs fl \<and>
           (\<forall>a. mem s' a = (if a - bptr r < n then mem s (src + (a - bptr r)) else mem s a))"
proof (cases "n = 0")
  case True
  then show ?thesis using hk by (simp add: memcpy_def)
next
  case False
  let ?s' = "s\<lparr>mem := (\<lambda>a. if a - bptr r < n then mem s (src + (a - bptr r)) else mem s a)\<rparr>"
  have t: "tags_ok s h bs" using hk by (simp add: heap_ok_alt)
  have ih: "in_heap s (bptr r) (unat n)" using n by (intro in_block [OF t m]) simp
  have x: "memcpy s (bptr r) src n = Inr ?s'" using False ih src by (simp add: memcpy_def)
  have b: "8 * (r + j) + 8 \<le> 2 ^ 64" using blocks_bounds [OF m] tags_ok_bound [OF t] by simp
  have "heap_ok ?s' h bs fl"
    by (rule payload_frame [OF hk m payload_dw(1) [OF n b refl] payload_dw(2) [OF n b refl]])
       (simp_all add: same_region_def)
  then show ?thesis using x by simp
qed

lemma memset_ok:
  assumes hk: "heap_ok s h bs fl" and m: "(r, j, True) \<in> set (blocks (Suc h) bs)"
    and n: "unat n + 8 \<le> 8 * j"
  shows "\<exists>s'. memset s (bptr r) c n = Inr s' \<and> heap_ok s' h bs fl \<and>
           (\<forall>a. mem s' a = (if a - bptr r < n then c else mem s a))"
proof (cases "n = 0")
  case True
  then show ?thesis using hk by (simp add: memset_def)
next
  case False
  let ?s' = "s\<lparr>mem := (\<lambda>a. if a - bptr r < n then c else mem s a)\<rparr>"
  have t: "tags_ok s h bs" using hk by (simp add: heap_ok_alt)
  have ih: "in_heap s (bptr r) (unat n)" using n by (intro in_block [OF t m]) simp
  have x: "memset s (bptr r) c n = Inr ?s'" using False ih by (simp add: memset_def)
  have b: "8 * (r + j) + 8 \<le> 2 ^ 64" using blocks_bounds [OF m] tags_ok_bound [OF t] by simp
  have "heap_ok ?s' h bs fl"
    by (rule payload_frame [OF hk m payload_dw(1) [OF n b refl] payload_dw(2) [OF n b refl]])
       (simp_all add: same_region_def)
  then show ?thesis using x by simp
qed

section \<open>realloc and calloc\<close>

lemma word_min_dw:
  fixes sz :: addr
  assumes "8 * k < 2 ^ 64"
  shows "(if sz < of_nat (8 * k) then sz else of_nat (8 * k)) = of_nat (min (8 * k) (unat sz))"
proof -
  have u: "unat (of_nat (8 * k) :: addr) = 8 * k" by (rule unat_of_nat64 [OF assms])
  have "(sz < of_nat (8 * k)) = (unat sz < 8 * k)" unfolding word_less_nat_alt u ..
  then show ?thesis by (simp add: min_def not_less del: of_nat_mult)
qed

lemma realloc_ok:
  assumes hk: "heap_ok s h bs fl" and m: "(x, k, True) \<in> set (blocks (Suc h) bs)"
    and nz: "sz \<noteq> 0" and nw: "unat sz + 15 < 2 ^ 64"
  shows "\<exists>p s1. malloc s sz = Some (Inr (p, s1)) \<and>
           (if p = 0 then s1 = s \<and> realloc s (bptr x) sz = Some (Inr (0, s))
            else \<exists>s2 s3 bs' fl' r j.
                   GET_SIZE s1 (HDRP (bptr x)) = Inr (of_nat (8 * k)) \<and>
                   memcpy s1 p (bptr x) (of_nat (min (8 * k) (unat sz))) = Inr s2 \<and>
                   (\<forall>a. mem s2 a = (if a - p < of_nat (min (8 * k) (unat sz))
                                     then mem s1 (bptr x + (a - p)) else mem s1 a)) \<and>
                   free s2 (bptr x) = Inr s3 \<and>
                   realloc s (bptr x) sz = Some (Inr (p, s3)) \<and>
                   heap_ok s3 h bs' fl' \<and> (naf bs \<longrightarrow> naf bs') \<and>
                   p = bptr r \<and> (r, j, True) \<in> set (blocks (Suc h) bs') \<and> asz sz \<le> j)"
proof -
  have t: "tags_ok s h bs" using hk by (simp add: heap_ok_alt)
  have "x + k \<le> Suc (h + total bs)" using blocks_bounds [OF m] by simp
  then have "8 * x + 8 < 2 ^ 64" using tags_ok_bound [OF t] by simp
  then have xnz: "bptr x \<noteq> 0" by (rule bptr_nz)
  from malloc_ok [OF hk nz nw] obtain p s1 bs1 fl1 where
    ml: "malloc s sz = Some (Inr (p, s1))" and hk1: "heap_ok s1 h bs1 fl1"
    and ka: "keeps_alloc h bs bs1" and nf: "naf bs \<longrightarrow> naf bs1"
    and res: "p = 0 \<and> s1 = s \<or>
            (\<exists>r j. p = bptr r \<and> p \<noteq> 0 \<and> (r, j, True) \<in> set (blocks (Suc h) bs1) \<and> asz sz \<le> j \<and>
                   (\<forall>k'. (r, k', True) \<notin> set (blocks (Suc h) bs)))" by blast
  show ?thesis
  proof (cases "p = 0")
    case True
    then have "s1 = s" using res by auto
    moreover have "realloc s (bptr x) sz = Some (Inr (0, s1))"
      using nz xnz True by (simp add: realloc_def ml)
    ultimately show ?thesis using ml True by auto
  next
    case False
    then obtain r j where p: "p = bptr r" and rb: "(r, j, True) \<in> set (blocks (Suc h) bs1)"
      and aj: "asz sz \<le> j" and fr: "\<forall>k'. (r, k', True) \<notin> set (blocks (Suc h) bs)"
      using res by auto
    have t1: "tags_ok s1 h bs1" using hk1 by (simp add: heap_ok_alt)
    have m1: "(x, k, True) \<in> set (blocks (Suc h) bs1)" using ka m by (simp add: keeps_alloc_def)
    then have ma: "(x, k, True) \<in> set (all_blocks h bs1)" by (simp add: all_blocks_def)
    have k32: "8 * k < 2 ^ 32" using all_blocks_tags [OF t1 ma] by simp
    then have k64: "8 * k < 2 ^ 64" by simp
    have gs: "GET_SIZE s1 (HDRP (bptr x)) = Inr (of_nat (8 * k))" by (rule blk_reads(1) [OF t1 ma])
    let ?n = "of_nat (min (8 * k) (unat sz)) :: addr"
    have "min (8 * k) (unat sz) < 2 ^ 64" using k64 by simp
    then have un: "unat ?n = min (8 * k) (unat sz)" by (rule unat_of_nat64)
    have n8: "unat ?n + 8 \<le> 8 * j" using asz_room [of sz] aj unfolding un by simp
    have src: "in_heap s1 (bptr x) (unat ?n)" unfolding un by (rule in_block [OF t1 m1]) simp
    from memcpy_ok [OF hk1 rb n8 src] obtain s2 where
      mc: "memcpy s1 (bptr r) (bptr x) ?n = Inr s2" and hk2: "heap_ok s2 h bs1 fl1"
      and cp: "\<forall>a. mem s2 a = (if a - bptr r < ?n then mem s1 (bptr x + (a - bptr r)) else mem s1 a)"
      by blast
    from free_ok [OF hk2 m1] obtain s3 bs' fl' where
      fx: "free s2 (bptr x) = Inr s3" and hk3: "heap_ok s3 h bs' fl'"
      and nf3: "naf bs1 \<longrightarrow> naf bs'"
      and keep: "\<forall>y j. (y, j, True) \<in> set (blocks (Suc h) bs1) \<and> y \<noteq> x \<longrightarrow>
                  (y, j, True) \<in> set (blocks (Suc h) bs')" by blast
    have "r \<noteq> x" using fr m by auto
    then have rb3: "(r, j, True) \<in> set (blocks (Suc h) bs')" using keep rb by blast
    have wm: "(if sz < of_nat (8 * k) then sz else ucast (of_nat (8 * k) :: word32)) = ?n"
      unfolding ucast_sz [OF k32] by (rule word_min_dw [OF k64])
    have "realloc s (bptr x) sz = Some (Inr (p, s3))"
      using nz xnz False
      by (simp add: realloc_def ml gs ucast_sz [OF k32] Let_def wm
            p [symmetric] mc [folded p] fx del: of_nat_mult split del: if_split)
    then show ?thesis using ml False gs mc [folded p] cp [folded p] fx hk3 nf nf3 p rb3 aj by auto
  qed
qed

lemma memset_null:
  assumes t: "tags_ok s h bs" and h: "0 < h" and nz: "n \<noteq> 0"
  shows "memset s 0 c n = Inl SegFault"
proof -
  have "unat (mem_heap s) = 8 * h" using tags_ok_region [OF t] by (simp add: region_def)
  then have "\<not> in_heap s 0 (unat n)" using h by (simp add: in_heap_def)
  then show ?thesis using nz by (simp add: memset_def)
qed

lemma calloc_ok:
  assumes hk: "heap_ok s h bs fl" and h: "0 < h"
    and nz: "n * sz \<noteq> 0" and nw: "unat (n * sz) + 15 < 2 ^ 64"
  shows "\<exists>p s1. malloc s (n * sz) = Some (Inr (p, s1)) \<and>
           (if p = 0 then s1 = s \<and> calloc s n sz = Some (Inl SegFault)
            else \<exists>s2 bs' fl' r j.
                   memset s1 p 0 (n * sz) = Inr s2 \<and>
                   calloc s n sz = Some (Inr (p, s2)) \<and>
                   heap_ok s2 h bs' fl' \<and> keeps_alloc h bs bs' \<and> (naf bs \<longrightarrow> naf bs') \<and>
                   (\<forall>a. a - p < n * sz \<longrightarrow> mem s2 a = 0) \<and>
                   p = bptr r \<and> (r, j, True) \<in> set (blocks (Suc h) bs') \<and> asz (n * sz) \<le> j)"
proof -
  have t: "tags_ok s h bs" using hk by (simp add: heap_ok_alt)
  from malloc_ok [OF hk nz nw] obtain p s1 bs1 fl1 where
    ml: "malloc s (n * sz) = Some (Inr (p, s1))" and hk1: "heap_ok s1 h bs1 fl1"
    and ka: "keeps_alloc h bs bs1" and nf: "naf bs \<longrightarrow> naf bs1"
    and res: "p = 0 \<and> s1 = s \<or>
            (\<exists>r j. p = bptr r \<and> p \<noteq> 0 \<and> (r, j, True) \<in> set (blocks (Suc h) bs1) \<and>
                   asz (n * sz) \<le> j \<and>
                   (\<forall>k'. (r, k', True) \<notin> set (blocks (Suc h) bs)))" by blast
  show ?thesis
  proof (cases "p = 0")
    case True
    then have s1: "s1 = s" using res by auto
    have "calloc s n sz = Some (Inl SegFault)"
      using memset_null [OF t h nz] by (simp add: calloc_def Let_def ml True s1)
    then show ?thesis using ml True s1 by auto
  next
    case False
    then obtain r j where p: "p = bptr r" and rb: "(r, j, True) \<in> set (blocks (Suc h) bs1)"
      and aj: "asz (n * sz) \<le> j"
      using res by auto
    have n8: "unat (n * sz) + 8 \<le> 8 * j" using asz_room [of "n * sz"] aj by simp
    from memset_ok [OF hk1 rb n8, of 0] obtain s2 where
      ms: "memset s1 (bptr r) 0 (n * sz) = Inr s2" and hk2: "heap_ok s2 h bs1 fl1"
      and mem2: "\<forall>a. mem s2 a = (if a - bptr r < n * sz then 0 else mem s1 a)" by blast
    have "calloc s n sz = Some (Inr (p, s2))"
      by (simp add: calloc_def Let_def ml p ms)
    then show ?thesis using ml False ms hk2 ka nf mem2 p rb aj by auto
  qed
qed

lemma calloc_zero:
  assumes hk: "heap_ok s h bs fl" and z: "n * sz = 0"
  shows "calloc s n sz = Some (Inr (0, s))"
proof -
  have t: "tags_ok s h bs" using hk by (simp add: heap_ok_alt)
  have "malloc s 0 = Some (Inr (0, s))" by (simp add: malloc_def lazy_init_ok [OF t])
  then show ?thesis by (simp add: calloc_def Let_def z memset_def)
qed

section \<open>Facts about the example states\<close>

lemma tag_vals: "tag 1 True = 9" "tag 3 True = 25" "tag 61 False = 488" "tag 0 True = 1"
  "tag 4 True = 33" "tag 64 False = 512" "tag 5 False = 40" "tag 3 False = 24"
  "tag 50 False = 400"
  by (simp_all add: tag_def PACK_def)

lemma s_two_dw:
  "s_two = set_hi (set_lo (set_hi (set_lo (set_hi (set_lo (set_hi s_zero
             512 (tag 1 True)) 513 (tag 1 True)) 513 (tag 3 True)) 516 (tag 3 True))
             516 (tag 61 False)) 577 (tag 61 False)) 577 (tag 0 True)"
  by (simp add: s_two_def s_zero_def heap_image_def set_lo_def set_hi_def tag_vals
        del: One_nat_def)

lemma dw_zero: "dw_lo s_zero d = 0" "dw_hi s_zero d = 0"
  by (simp_all add: dw_lo_def dw_hi_def s_zero_def load32_def le32_def)

lemma s_zero_fields:
  "mem_heap s_zero = 0x1000" "mem_brk s_zero = 0x1210" "mem_max_addr s_zero = 0x101000"
  "heap_listp s_zero = 0x1008" "first_free s_zero = 0x1028"
  by (simp_all add: s_zero_def)

lemma s_two_ok: "heap_ok s_two 512 [(3, True), (61, False)] [516]"
  unfolding s_two_dw
  by (simp add: heap_ok_def region_def dw_zero bptr_def off_def s_zero_fields del: One_nat_def)

lemma s_list_dw:
  "s_list = set_hi (set_lo (set_lo (set_hi (set_lo (set_hi (set_lo (set_hi (set_lo (set_hi
            (set_lo (set_hi (set_lo (set_hi (set_hi (set_lo (set_hi
              (s_zero\<lparr>first_free := 0x1010\<rparr>)
              512 (tag 1 True)) 513 (tag 1 True))
              513 (tag 5 False)) 514 (off 9)) 518 (tag 5 False))
              518 (tag 3 True)) 521 (tag 3 True))
              521 (tag 3 False)) 522 (off 1)) 522 (off 15)) 524 (tag 3 False))
              524 (tag 3 True)) 527 (tag 3 True))
              527 (tag 50 False)) 528 (off 9)) 577 (tag 50 False))
              577 (tag 0 True)"
  by (simp add: s_list_def s_zero_def list_image_def set_lo_def set_hi_def tag_vals off_def
        del: One_nat_def)

lemma s_list_ok:
  "heap_ok s_list 512 [(5, False), (3, True), (3, False), (3, True), (50, False)] [513, 521, 527]"
  unfolding s_list_dw
  by (simp add: heap_ok_def region_def dw_zero bptr_def off_def s_zero_fields del: One_nat_def)

section \<open>The walks of the code on a heap that satisfies the invariant\<close>

lemma list_walk_ok:
  assumes hk: "heap_ok s h bs fl"
  shows "fl = us @ ws \<Longrightarrow> length ws \<le> n \<Longrightarrow>
         list_walk s n (bptr (hd (ws @ [h]))) = Some (map bptr ws)"
proof (induction ws arbitrary: us n)
  case Nil
  have "heap_listp s = bptr h" using hk by (auto simp: heap_ok_alt dest: tags_ok_heap_listp)
  then show ?case by (cases n) simp_all
next
  case (Cons z ws)
  let ?e = "Suc (h + total bs)"
  from Cons.prems(2) obtain m where n: "n = Suc m" and m: "length ws \<le> m" by (cases n) auto
  have t: "tags_ok s h bs" and l: "list_ok s h fl"
    and eq: "set fl = set (frees (Suc h) bs)"
    using hk by (simp_all add: heap_ok_alt)
  have r: "region s h ?e" by (rule tags_ok_region [OF t])
  have hl: "heap_listp s = bptr h" by (rule tags_ok_heap_listp [OF t])
  have zf: "z \<in> set (frees (Suc h) bs)" using eq Cons.prems by auto
  have zb: "h < z" "z < ?e" using node_bounds [OF t zf] by auto
  have ne: "bptr z \<noteq> heap_listp s" unfolding hl by (rule node_ptr_neq [OF t zf])
  have d: "dll s h h (us @ z # ws) h" using l Cons.prems by (simp add: list_ok_def)
  have f: "dw_hi s (Suc z) = off (hd (ws @ [h]) - h)" using dll_fields [OF d] by simp
  have nx: "h \<le> hd (ws @ [h]) \<and> hd (ws @ [h]) < ?e"
  proof (cases ws)
    case Nil then show ?thesis by simp
  next
    case (Cons n ws')
    then have "n \<in> set (frees (Suc h) bs)" using eq \<open>fl = us @ z # ws\<close> by auto
    then show ?thesis using node_bounds [OF t, of n] Cons by auto
  qed
  have gs: "GET_SUCC s (bptr z) = Inr (bptr (hd (ws @ [h])))"
    using zb nx by (intro R_GET_SUCC [OF r _ _ f]) auto
  have ih: "list_walk s m (bptr (hd (ws @ [h]))) = Some (map bptr ws)"
    using Cons.IH [of "us @ [z]" m] Cons.prems m by simp
  show ?case by (simp add: n ne gs ih)
qed







section \<open>The operations on any valid heap\<close>

lemma proj_simps [simp]:
  "state_of d (Some (Inr (p, s))) = s" "ptr_of (Some (Inr (p, s))) = p"
  "res_state d (Inr s) = s"
  by (simp_all add: state_of_def ptr_of_def res_state_def)


lemma find_fit_none:
  assumes hk: "heap_ok s h bs fl"
  shows "(find_fit s asize = Some (Inr 0)) =
         (List.find (\<lambda>z. unat asize \<le> 8 * bsize h bs z) fl = None)"
proof (cases "List.find (\<lambda>z. unat asize \<le> 8 * bsize h bs z) fl")
  case None
  then show ?thesis by (simp add: find_fit_ok [OF hk])
next
  case (Some z)
  have t: "tags_ok s h bs" and eq: "set fl = set (frees (Suc h) bs)"
    using hk by (simp_all add: heap_ok_alt)
  have "z \<in> set fl" using Some by (auto simp: find_Some_iff)
  then have "8 * z + 8 < 2 ^ 64" using node_bounds [OF t] tags_ok_bound [OF t] eq by fastforce
  then have "bptr z \<noteq> 0" by (rule bptr_nz)
  then show ?thesis by (simp add: find_fit_ok [OF hk] Some)
qed

lemma unat_extendsize:
  assumes nw: "unat sz + 15 < 2 ^ 64"
  shows "unat (max (adjust_size sz) 512) = 8 * max (asz sz) 64"
proof -
  have a64: "8 * asz sz < 2 ^ 64" by (rule asz_lt [OF nw])
  then have "8 * max (asz sz) 64 < 2 ^ 64" by (simp add: max_def)
  then show ?thesis
    unfolding adjust_size_dw [OF nw] max_dw [OF a64] by (rule unat_of_nat64)
qed

lemma extend_words:
  assumes nw: "unat sz + 15 < 2 ^ 64"
  shows "max (adjust_size sz) 512 div 4 = of_nat (2 * max (asz sz) 64)"
proof -
  have a64: "8 * asz sz < 2 ^ 64" by (rule asz_lt [OF nw])
  then have k64: "8 * max (asz sz) 64 < 2 ^ 64" by (simp add: max_def)
  show ?thesis
    unfolding adjust_size_dw [OF nw] max_dw [OF a64] by (rule words_dw [OF k64])
qed

lemma heap_ok_max:
  assumes hk: "heap_ok s h bs fl" and m: "unat (mem_brk s) \<le> unat m" "unat m < 8 * h + 2 ^ 32"
  shows "heap_ok (s\<lparr>mem_max_addr := m\<rparr>) h bs fl"
proof -
  have dw: "\<And>d. dw_lo (s\<lparr>mem_max_addr := m\<rparr>) d = dw_lo s d"
    "\<And>d. dw_hi (s\<lparr>mem_max_addr := m\<rparr>) d = dw_hi s d"
    by (simp_all add: dw_lo_def dw_hi_def)
  have "seg (s\<lparr>mem_max_addr := m\<rparr>) (Suc h) bs = seg s (Suc h) bs"
    by (rule seg_cong) (simp add: dw)
  moreover have "dll (s\<lparr>mem_max_addr := m\<rparr>) h h fl h = dll s h h fl h"
    by (rule dll_cong) (simp add: dw)
  ultimately show ?thesis using hk m by (simp add: heap_ok_def region_def dw)
qed




lemma calloc_any:
  assumes hk: "heap_ok s h bs fl" and h: "0 < h" and nw: "unat (n * sz) + 15 < 2 ^ 64"
  shows "(\<exists>p s' bs' fl'. calloc s n sz = Some (Inr (p, s')) \<and> heap_ok s' h bs' fl' \<and>
            (naf bs \<longrightarrow> naf bs'))
         \<or> malloc s (n * sz) = Some (Inr (0, s)) \<and> calloc s n sz = Some (Inl SegFault)"
proof (cases "n * sz = 0")
  case True
  then show ?thesis using calloc_zero [OF hk True] hk by auto
next
  case False
  from calloc_ok [OF hk h False nw] obtain p s1 where
    ml: "malloc s (n * sz) = Some (Inr (p, s1))" and
    r: "if p = 0 then s1 = s \<and> calloc s n sz = Some (Inl SegFault)
        else \<exists>s2 bs' fl' r j.
               memset s1 p 0 (n * sz) = Inr s2 \<and>
               calloc s n sz = Some (Inr (p, s2)) \<and>
               heap_ok s2 h bs' fl' \<and> keeps_alloc h bs bs' \<and> (naf bs \<longrightarrow> naf bs') \<and>
               (\<forall>a. a - p < n * sz \<longrightarrow> mem s2 a = 0) \<and>
               p = bptr r \<and> (r, j, True) \<in> set (blocks (Suc h) bs') \<and> asz (n * sz) \<le> j" by blast
  show ?thesis
  proof (cases "p = 0")
    case True
    then show ?thesis using r ml by auto
  next
    case False
    then show ?thesis using r by (simp only: if_False) blast
  qed
qed



section \<open>Lemmas for the claims\<close>

lemma s_two_fields:
  "mem_heap s_two = 0x1000" "mem_brk s_two = 0x1210" "mem_max_addr s_two = 0x101000"
  "heap_listp s_two = 0x1008" "first_free s_two = 0x1028"
  by (simp_all add: s_two_def)

lemma s_full_ok: "heap_ok s_full 512 [(3, True), (61, False)] [516]"
  unfolding s_full_def by (rule heap_ok_max [OF s_two_ok]) (simp_all add: s_two_fields)

lemma fresh_ex: "fresh s_fresh 512" "fresh s_none 512"
  by (simp_all add: fresh_def s_fresh_def s_none_def)

lemma bptr_vals: "bptr 512 = 0x1008" "bptr 513 = 0x1010" "bptr 516 = 0x1028" "bptr 520 = 0x1048"
  "bptr 521 = 0x1050" "bptr 527 = 0x1080" "bptr 530 = 0x1098" "bptr 518 = 0x1038"
  by (simp_all add: bptr_def)

lemma bsize_list:
  "bsize 512 [(5, False), (3, True), (3, False), (3, True), (50, False)] 513 = 5"
  "bsize 512 [(5, False), (3, True), (3, False), (3, True), (50, False)] 521 = 3"
  "bsize 512 [(5, False), (3, True), (3, False), (3, True), (50, False)] 527 = 50"
  by (simp_all add: bsize_def)

lemma bsize_two: "bsize 512 [(3, True), (61, False)] 516 = 61"
  by (simp add: bsize_def)

lemma copy_load32:
  fixes dst src n :: addr
  assumes "k + 4 \<le> unat n"
    and m': "\<forall>a. m' a = (if a - dst < n then m (src + (a - dst)) else m a)"
  shows "load32 m' (dst + of_nat k) = load32 m (src + of_nat k)"
proof -
  have "m' (dst + of_nat k + of_nat i) = m (src + of_nat k + of_nat i)" if "i < 4" for i :: nat
  proof -
    have "k + i < 2 ^ 64" using that assms(1) unat_lt64 [of n] by linarith
    then have "unat (of_nat (k + i) :: addr) = k + i" by (rule unat_of_nat64)
    then have "(of_nat (k + i) :: addr) < n" using that assms(1) by (simp add: word_less_nat_alt)
    moreover have "dst + of_nat k + of_nat i - dst = (of_nat (k + i) :: addr)" by simp
    ultimately show ?thesis by (simp add: m' add.assoc)
  qed
  from this [of 0] this [of 1] this [of 2] this [of 3]
  show ?thesis by (simp add: load32_def)
qed

lemma find_two_24:
  "List.find (\<lambda>z. unat (adjust_size 24) \<le> 8 * bsize 512 [(3, True), (61, False)] z) [516]
   = Some 516"
  by (simp add: adjust_size_def bsize_two)

lemma asz_vals: "asz 24 = 4" "asz 600 = 76" "asz 1000 = 126" "asz 16 = 3"
  by (simp_all add: asz_def)

lemma malloc_two_24:
  "malloc s_two 24 = Some (Inr (0x1028, s_two_m))"
  "heap_ok s_two_m 512 [(3, True), (4, True), (57, False)] [520]"
  "dw_lo s_two_m 519 = 0"
proof -
  from malloc_fit_at [OF s_two_ok _ _ _ _ _ find_two_24, of "[(3, True)]" 61 "[]" "[]" "[]"]
  obtain s' where m: "malloc s_two 24 = Some (Inr (bptr 516, s'))"
    and hk: "heap_ok s' 512 (placed_bs [(3, True)] (asz 24) 61 []) (placed_fl [] 516 (asz 24) 61 [])"
    and fm: "\<forall>d. 516 < d \<and> d < 516 + asz 24 \<longrightarrow> dw_lo s' d = dw_lo s_two d \<and> dw_hi s' d = dw_hi s_two d"
    by auto
  have s': "s_two_m = s'" by (simp add: s_two_m_def m)
  show "malloc s_two 24 = Some (Inr (0x1028, s_two_m))" using m by (simp add: s' bptr_vals)
  show "heap_ok s_two_m 512 [(3, True), (4, True), (57, False)] [520]"
    using hk by (simp add: s' placed_bs_def placed_fl_def asz_vals)
  have "dw_lo s' 519 = dw_lo s_two 519" using fm by (simp add: asz_vals)
  also have "\<dots> = 0" unfolding s_two_dw by (simp add: dw_zero)
  finally show "dw_lo s_two_m 519 = 0" by (simp add: s')
qed

lemma dw_lo_load: "d < 2 ^ 61 \<Longrightarrow> dw_lo s d = load32 (mem s) (of_nat (8 * d))"
  by (simp add: dw_lo_def)

lemma malloc_extend:
  assumes hk: "heap_ok s h bs fl" and nz: "sz \<noteq> 0" and nw: "unat sz + 15 < 2 ^ 64"
    and nf: "find_fit s (adjust_size sz) = Some (Inr 0)"
  shows "if unat (mem_brk s) + unat (max (adjust_size sz) CHUNKSIZE) \<le> unat (mem_max_addr s)
         then \<exists>r s1 s' bs' fl' j.
                extend_heap s (max (adjust_size sz) CHUNKSIZE div WSIZE) = Inr (bptr r, s1) \<and>
                place s1 (bptr r) (adjust_size sz) = Inr s' \<and>
                malloc s sz = Some (Inr (bptr r, s')) \<and> bptr r \<noteq> 0 \<and>
                unat (mem_brk s') = unat (mem_brk s) + unat (max (adjust_size sz) CHUNKSIZE) \<and>
                heap_ok s' h bs' fl' \<and> (r, j, True) \<in> set (blocks (Suc h) bs') \<and>
                unat sz + 8 \<le> 8 * j \<and> r \<le> Suc (h + total bs)
         else malloc s sz = Some (Inr (0, s))"
proof -
  define k where "k = max (asz sz) 64"
  define e where "e = Suc (h + total bs)"
  have f: "List.find (\<lambda>z. unat (adjust_size sz) \<le> 8 * bsize h bs z) fl = None"
    using nf find_fit_none [OF hk] by simp
  note mn = malloc_nofit [OF hk nz nw f k_def e_def]
  have brk: "unat (mem_brk s) = 8 * e + 8" unfolding e_def by (rule heap_ok_brk [OF hk])
  have ex: "unat (max (adjust_size sz) 512) = 8 * k" unfolding k_def by (rule unat_extendsize [OF nw])
  have wd: "max (adjust_size sz) 512 div 4 = of_nat (2 * k)" unfolding k_def by (rule extend_words [OF nw])
  show ?thesis
  proof (cases "8 * e + 8 + 8 * k \<le> unat (mem_max_addr s)")
    case False
    then show ?thesis using mn by (simp add: brk ex)
  next
    case True
    then obtain s1 s' bs' fl' r j where
      x: "extend_heap s (of_nat (2 * k)) = Inr (bptr r, s1)"
      and pl: "place s1 (bptr r) (adjust_size sz) = Inr s'"
      and m: "malloc s sz = Some (Inr (bptr r, s'))" and hk': "heap_ok s' h bs' fl'"
      and tot: "total bs' = total bs + k"
      and rb: "(r, j, True) \<in> set (blocks (Suc h) bs')" and aj: "asz sz \<le> j" and re: "r \<le> e"
      using mn by auto
    have t': "tags_ok s' h bs'" using hk' by (simp add: heap_ok_alt)
    have "r + j \<le> Suc (h + total bs')" using blocks_bounds [OF rb] by simp
    then have "8 * r + 8 < 2 ^ 64" using tags_ok_bound [OF t'] by simp
    then have nzp: "bptr r \<noteq> 0" by (rule bptr_nz)
    have b': "unat (mem_brk s') = unat (mem_brk s) + unat (max (adjust_size sz) 512)"
      unfolding heap_ok_brk [OF hk'] brk ex tot e_def by simp
    have room: "unat sz + 8 \<le> 8 * j" using asz_room [of sz] aj by simp
    have "\<exists>r s1 s' bs' fl' j.
                extend_heap s (max (adjust_size sz) CHUNKSIZE div WSIZE) = Inr (bptr r, s1) \<and>
                place s1 (bptr r) (adjust_size sz) = Inr s' \<and>
                malloc s sz = Some (Inr (bptr r, s')) \<and> bptr r \<noteq> 0 \<and>
                unat (mem_brk s') = unat (mem_brk s) + unat (max (adjust_size sz) CHUNKSIZE) \<and>
                heap_ok s' h bs' fl' \<and> (r, j, True) \<in> set (blocks (Suc h) bs') \<and>
                unat sz + 8 \<le> 8 * j \<and> r \<le> Suc (h + total bs)"
      using x [folded wd] pl m nzp b' hk' rb room re [unfolded e_def] by blast
    then show ?thesis using True by (simp add: brk ex)
  qed
qed


lemma find_two_none:
  "find_fit s_two (adjust_size 600) = Some (Inr 0)"
  "find_fit s_full (adjust_size 1000) = Some (Inr 0)"
  by (simp_all add: find_fit_none [OF s_two_ok] find_fit_none [OF s_full_ok] adjust_size_def
      bsize_two)

lemma malloc_fail_same:
  assumes hk: "heap_ok s h bs fl" and nw: "unat sz + 15 < 2 ^ 64"
    and m: "malloc s sz = Some (Inr (0, s1))"
  shows "s1 = s"
proof (cases "sz = 0")
  case True
  have t: "tags_ok s h bs" using hk by (simp add: heap_ok_alt)
  have "malloc s 0 = Some (Inr (0, s))" by (simp add: malloc_def lazy_init_ok [OF t])
  then show ?thesis using m True by simp
next
  case False
  from malloc_ok [OF hk False nw] m show ?thesis by auto
qed

lemma realloc_fail:
  assumes "ptr \<noteq> 0" "sz \<noteq> 0" "malloc s sz = Some (Inr (0, s1))"
  shows "realloc s ptr sz = Some (Inr (0, s1))"
  using assms by (simp add: realloc_def)

lemma s_full_fields:
  "mem_brk s_full = 0x1210" "mem_max_addr s_full = 0x1210"
  by (simp_all add: s_full_def s_two_fields)

lemma malloc_full: "malloc s_full 1000 = Some (Inr (0, s_full))"
proof -
  have a: "adjust_size 1000 = 1008" by (simp add: adjust_size_def)
  from malloc_extend [OF s_full_ok _ _ find_two_none(2)] show ?thesis
    by (simp add: a s_full_fields)
qed

lemma malloc_none: "malloc s_none 16 = Some (Inl SegFault)"
proof -
  let ?s = "s_none\<lparr>heap_listp := - 1\<rparr>"
  have i: "mm_init s_none = Inr (- 1, ?s)"
    by (rule mm_init_fail [OF fresh_ex(2)]) (simp add: s_none_def)
  have "\<not> in_heap ?s (HDRP 0) 4"
    by (simp add: in_heap_def HDRP_def s_none_def unsigned_minus_1_eq_mask mask_eq_exp_minus_1)
  then have f: "fits ?s 24 0 = Inl SegFault"
    by (simp add: fits_def GET_ALLOC_def GET_def bind_res_def)
  have fd: "first_free ?s = 0" "heap_listp ?s = - 1" "heap_listp s_none = 0"
    by (simp_all add: s_none_def)
  have ff: "find_fit ?s 24 = Some (Inl SegFault)"
    unfolding find_fit_def fd
    by (subst find_fit_from.simps) (simp add: f fd)
  show ?thesis
    by (simp add: malloc_def lazy_init_def i adjust_size_def ff fd)
qed



section \<open>Running the code on the example states\<close>



lemma in_heap_set [simp]:
  "in_heap (set_lo s d v) p n = in_heap s p n" "in_heap (set_hi s d v) p n = in_heap s p n"
  "in_heap (s\<lparr>first_free := q\<rparr>) p n = in_heap s p n"
  "in_heap (s\<lparr>mem := m\<rparr>) p n = in_heap s p n"
  by (simp_all add: in_heap_def)



lemma copied_fields [simp]:
  "mem_heap (copied s dst src n) = mem_heap s" "mem_brk (copied s dst src n) = mem_brk s"
  "mem_max_addr (copied s dst src n) = mem_max_addr s"
  "heap_listp (copied s dst src n) = heap_listp s" "first_free (copied s dst src n) = first_free s"
  "in_heap (copied s dst src n) p m = in_heap s p m"
  by (simp_all add: copied_def in_heap_def)





lemma in_heap_upd [simp]:
  "in_heap (s\<lparr>mem_brk := b\<rparr>) p n = in_heap s p n"
  "in_heap (s\<lparr>heap_listp := q\<rparr>) p n = in_heap s p n"
  by (simp_all add: in_heap_def)


section \<open>free on a heap that was never initialised\<close>



lemma same_region_trans: "same_region s s' \<Longrightarrow> same_region s' s'' \<Longrightarrow> same_region s s''"
  by (simp add: same_region_def)











section \<open>realloc with a size that wraps around\<close>






section \<open>The block that malloc returns\<close>






section \<open>The claims\<close>






text \<open>
  Claim C3, as stated, fails: the copy is not limited to the old payload.  In \<open>s_two\<close>
  the live block at \<open>0x1010\<close> has 16 bytes of payload.  \<open>realloc(0x1010, 24)\<close> gets
  the new block \<open>0x1028\<close> from \<open>malloc\<close>, reads the old block size 24 (payload plus
  header and footer) and copies 24 bytes, not \<open>min(16, 24) = 16\<close>: the word at offset
  16 of the new block, which was 0 after \<open>malloc\<close>, is 25 after the copy, the old
  block's footer from \<open>0x1020\<close>.
\<close>

theorem C3_counterexample:
  "ptr_of (malloc s_two 24) = 0x1028
   \<and> GET_SIZE s_two_m (HDRP 0x1010) = Inr 24
   \<and> memcpy s_two_m 0x1028 0x1010 24 = Inr s_two_c
   \<and> realloc s_two 0x1010 24 = Some (Inr (0x1028, res_state s_two_c (free s_two_c 0x1010)))
   \<and> load32 (mem s_two_m) 0x1020 = 25
   \<and> load32 (mem s_two_m) 0x1038 = 0
   \<and> load32 (mem s_two_c) 0x1038 = 25"
proof -
  note hk = malloc_two_24(2)
  have t: "tags_ok s_two_m 512 [(3, True), (4, True), (57, False)]"
    using hk by (simp add: heap_ok_alt)
  have b: "(513, 3, True) \<in> set (blocks (Suc 512) [(3, True), (61, False)])" by simp
  from realloc_ok [OF s_two_ok b, of 24] malloc_two_24(1)
  obtain s2 s3 where gs: "GET_SIZE s_two_m (HDRP (bptr 513)) = Inr (of_nat (8 * 3))"
    and mc: "memcpy s_two_m 0x1028 (bptr 513) (of_nat (min (8 * 3) (unat (24 :: addr)))) = Inr s2"
    and cp: "\<forall>a. mem s2 a = (if a - 0x1028 < of_nat (min (8 * 3) (unat (24 :: addr)))
                              then mem s_two_m (bptr 513 + (a - 0x1028)) else mem s_two_m a)"
    and fr: "free s2 (bptr 513) = Inr s3"
    and re: "realloc s_two (bptr 513) 24 = Some (Inr (0x1028, s3))"
    by auto
  have mc': "memcpy s_two_m 0x1028 0x1010 24 = Inr s2" using mc by (simp add: bptr_vals)
  then have c: "s_two_c = s2" by (simp add: s_two_c_def)
  have cp': "\<forall>a. mem s2 a = (if a - 0x1028 < 24 then mem s_two_m (0x1010 + (a - 0x1028))
                               else mem s_two_m a)"
    using cp by (simp add: bptr_vals)
  have 1: "ptr_of (malloc s_two 24) = 0x1028" by (simp add: malloc_two_24(1))
  have 2: "GET_SIZE s_two_m (HDRP 0x1010) = Inr 24" using gs by (simp add: bptr_vals)
  have 4: "realloc s_two 0x1010 24 = Some (Inr (0x1028, res_state s_two_c (free s_two_c 0x1010)))"
    using re fr by (simp add: c bptr_vals)
  have "dw_lo s_two_m 516 = tag 3 True" using t by (simp add: tags_ok_def)
  then have 5: "load32 (mem s_two_m) 0x1020 = 25" by (simp add: dw_lo_def tag_vals)
  have 6: "load32 (mem s_two_m) 0x1038 = 0" using malloc_two_24(3) by (simp add: dw_lo_def)
  have "load32 (mem s2) (0x1028 + of_nat 16) = load32 (mem s_two_m) (0x1010 + of_nat 16)"
    by (rule copy_load32 [OF _ cp']) simp
  then have 7: "load32 (mem s_two_c) 0x1038 = 25" using 5 by (simp add: c)
  show ?thesis using 1 2 mc' c 4 5 6 7 by simp
qed

text \<open>
  Claim C3, amended.  For the address of a live block of \<open>k\<close> double words (a block of
  \<open>8 * k\<close> bytes, of which \<open>8 * k - 8\<close> are payload) and a size greater than 0 whose
  adjustment does not wrap around, \<open>realloc\<close> first calls \<open>malloc\<close>.  If that
  returns \<open>NULL\<close>, so does \<open>realloc\<close>.  Otherwise it reads the block size \<open>8 * k\<close>
  from the old header, copies exactly \<open>min (8 * k) size\<close> bytes from the old payload
  address to the new one, frees the old block, and returns the new address; the heap
  satisfies the invariant afterwards.
\<close>

theorem C3_realloc_copy:
  assumes "heap_ok s h bs fl" and "(x, k, True) \<in> set (blocks (Suc h) bs)"
    and "sz \<noteq> 0" and "unat sz + 15 < 2 ^ 64"
  shows "\<exists>p s1. malloc s sz = Some (Inr (p, s1)) \<and>
           (if p = 0 then realloc s (bptr x) sz = Some (Inr (0, s))
            else \<exists>s2 s3 bs' fl'.
                   GET_SIZE s1 (HDRP (bptr x)) = Inr (of_nat (8 * k)) \<and>
                   memcpy s1 p (bptr x) (of_nat (min (8 * k) (unat sz))) = Inr s2 \<and>
                   (\<forall>a. mem s2 a = (if a - p < of_nat (min (8 * k) (unat sz))
                                     then mem s1 (bptr x + (a - p)) else mem s1 a)) \<and>
                   free s2 (bptr x) = Inr s3 \<and>
                   realloc s (bptr x) sz = Some (Inr (p, s3)) \<and>
                   heap_ok s3 h bs' fl')"
proof -
  from realloc_ok [OF assms] obtain p s1 where
    ml: "malloc s sz = Some (Inr (p, s1))" and
    r: "if p = 0 then s1 = s \<and> realloc s (bptr x) sz = Some (Inr (0, s))
        else \<exists>s2 s3 bs' fl' r j.
               GET_SIZE s1 (HDRP (bptr x)) = Inr (of_nat (8 * k)) \<and>
               memcpy s1 p (bptr x) (of_nat (min (8 * k) (unat sz))) = Inr s2 \<and>
               (\<forall>a. mem s2 a = (if a - p < of_nat (min (8 * k) (unat sz))
                                 then mem s1 (bptr x + (a - p)) else mem s1 a)) \<and>
               free s2 (bptr x) = Inr s3 \<and>
               realloc s (bptr x) sz = Some (Inr (p, s3)) \<and>
               heap_ok s3 h bs' fl' \<and> (naf bs \<longrightarrow> naf bs') \<and>
               p = bptr r \<and> (r, j, True) \<in> set (blocks (Suc h) bs') \<and> asz sz \<le> j" by blast
  show ?thesis
  proof (cases "p = 0")
    case True
    then show ?thesis using ml r by auto
  next
    case False
    with r obtain s2 s3 bs' fl' where
      "GET_SIZE s1 (HDRP (bptr x)) = Inr (of_nat (8 * k))"
      "memcpy s1 p (bptr x) (of_nat (min (8 * k) (unat sz))) = Inr s2"
      "\<forall>a. mem s2 a = (if a - p < of_nat (min (8 * k) (unat sz))
                                 then mem s1 (bptr x + (a - p)) else mem s1 a)"
      "free s2 (bptr x) = Inr s3" "realloc s (bptr x) sz = Some (Inr (p, s3))"
      "heap_ok s3 h bs' fl'" by auto
    then have "\<exists>s2 s3 bs' fl'.
                   GET_SIZE s1 (HDRP (bptr x)) = Inr (of_nat (8 * k)) \<and>
                   memcpy s1 p (bptr x) (of_nat (min (8 * k) (unat sz))) = Inr s2 \<and>
                   (\<forall>a. mem s2 a = (if a - p < of_nat (min (8 * k) (unat sz))
                                     then mem s1 (bptr x + (a - p)) else mem s1 a)) \<and>
                   free s2 (bptr x) = Inr s3 \<and>
                   realloc s (bptr x) sz = Some (Inr (p, s3)) \<and>
                   heap_ok s3 h bs' fl'" by blast
    then show ?thesis using ml False by (intro exI [of _ p] exI [of _ s1]) simp
  qed
qed

theorem C3_realloc_copy_witness:
  "heap_ok s_two 512 [(3, True), (61, False)] [516]
   \<and> (513, 3, True) \<in> set (blocks 513 [(3, True), (61, False)])
   \<and> (24 :: addr) \<noteq> 0 \<and> unat (24 :: addr) + 15 < 2 ^ 64
   \<and> malloc s_two 24 = Some (Inr (0x1028, s_two_m))
   \<and> GET_SIZE s_two_m (HDRP 0x1010) = Inr 24
   \<and> (\<exists>s2 s3 bs' fl'. memcpy s_two_m 0x1028 0x1010 24 = Inr s2
         \<and> free s2 0x1010 = Inr s3
         \<and> realloc s_two 0x1010 24 = Some (Inr (0x1028, s3))
         \<and> heap_ok s3 512 bs' fl')"
  using C3_realloc_copy [OF s_two_ok, of 513 3 24] s_two_ok malloc_two_24(1)
  by (auto simp: bptr_vals)




text \<open>
  Claim C5, the code at the failing inputs.  \<open>s_full\<close> is a valid heap in which no
  free block fits a request of 1000 bytes and the host cannot grow the heap.
  \<open>malloc(1000)\<close> and \<open>realloc(0x1010, 1000)\<close> return \<open>NULL\<close> and leave the state as
  it was, but \<open>calloc(1, 1000)\<close> passes the \<open>NULL\<close> it got from \<open>malloc\<close> to
  \<open>memset\<close>, which writes 1000 bytes at address 0: a fault, not a \<open>NULL\<close> result.
  And on \<open>s_none\<close>, where \<open>mm_init\<close> has never run and the host has no memory at all,
  \<open>malloc(16)\<close> ignores the failure of \<open>mm_init\<close> and faults in \<open>find_fit\<close>.
\<close>

theorem C5_out_of_memory:
  "find_fit s_full (adjust_size 1000) = Some (Inr 0)
   \<and> \<not> unat (mem_brk s_full) + unat (max (adjust_size 1000) CHUNKSIZE) \<le> unat (mem_max_addr s_full)
   \<and> malloc s_full 1000 = Some (Inr (0, s_full))
   \<and> realloc s_full 0x1010 1000 = Some (Inr (0, s_full))
   \<and> calloc s_full 1 1000 = Some (Inl SegFault)
   \<and> malloc s_none 16 = Some (Inl SegFault)"
proof -
  have a: "adjust_size 1000 = 1008" by (simp add: adjust_size_def)
  have t: "tags_ok s_full 512 [(3, True), (61, False)]" using s_full_ok by (simp add: heap_ok_alt)
  have "memset s_full 0 0 1000 = Inl SegFault" by (rule memset_null [OF t]) simp_all
  then have c: "calloc s_full 1 1000 = Some (Inl SegFault)"
    by (simp add: calloc_def Let_def malloc_full)
  have r: "realloc s_full 0x1010 1000 = Some (Inr (0, s_full))"
    by (rule realloc_fail [OF _ _ malloc_full]) simp_all
  show ?thesis using find_two_none(2) malloc_full r c malloc_none by (simp add: a s_full_fields)
qed

text \<open>
  Claim C6.  On a valid heap whose free list is \<open>fl\<close> (in list order: following the
  successor links from \<open>first_free\<close> gives exactly \<open>fl\<close>, and every node has a header
  marked free with the size \<open>bsize\<close> gives), \<open>find_fit\<close> returns and its result is
  the first block of \<open>fl\<close> whose size is at least the requested size, whatever comes
  after it in the list, and \<open>NULL\<close> if there is none.
\<close>

theorem C6_first_fit:
  assumes "heap_ok s h bs fl"
  shows "list_walk s (length fl) (first_free s) = Some (map bptr fl)
       \<and> (\<forall>z \<in> set fl. GET_ALLOC s (HDRP (bptr z)) = Inr 0
                      \<and> GET_SIZE s (HDRP (bptr z)) = Inr (of_nat (8 * bsize h bs z))
                      \<and> bptr z \<noteq> 0)
       \<and> find_fit s asize =
           Some (Inr (case List.find (\<lambda>z. unat asize \<le> 8 * bsize h bs z) fl of
                        None \<Rightarrow> 0 | Some z \<Rightarrow> bptr z))"
proof -
  have t: "tags_ok s h bs" and eq: "set fl = set (frees (Suc h) bs)"
    using assms by (simp_all add: heap_ok_alt)
  have sg: "seg s (Suc h) bs" using t by (simp add: tags_ok_def)
  have 1: "list_walk s (length fl) (first_free s) = Some (map bptr fl)"
    using list_walk_ok [OF assms, of "[]" fl "length fl"] assms by (simp add: heap_ok_def)
  have 2: "GET_ALLOC s (HDRP (bptr z)) = Inr 0
           \<and> GET_SIZE s (HDRP (bptr z)) = Inr (of_nat (8 * bsize h bs z)) \<and> bptr z \<noteq> 0"
    if "z \<in> set fl" for z
  proof -
    have zf: "z \<in> set (frees (Suc h) bs)" using that eq by simp
    from free_block [OF t zf] obtain k where k: "(z, k, False) \<in> set (blocks (Suc h) bs)"
      by metis
    then have ma: "(z, k, False) \<in> set (all_blocks h bs)" by (simp add: all_blocks_def)
    have "8 * z + 8 < 2 ^ 64" using node_bounds [OF t zf] tags_ok_bound [OF t] by simp
    then have "bptr z \<noteq> 0" by (rule bptr_nz)
    then show ?thesis using blk_reads(1,2) [OF t ma] bsize_eq [OF sg k] by simp
  qed
  show ?thesis using 1 2 find_fit_ok [OF assms] by blast
qed

theorem C6_first_fit_witness:
  "heap_ok s_list 512 [(5, False), (3, True), (3, False), (3, True), (50, False)] [513, 521, 527]
   \<and> list_walk s_list 3 (first_free s_list) = Some [0x1010, 0x1050, 0x1080]
   \<and> GET_SIZE s_list (HDRP 0x1010) = Inr 40
   \<and> GET_SIZE s_list (HDRP 0x1050) = Inr 24
   \<and> GET_SIZE s_list (HDRP 0x1080) = Inr 400
   \<and> find_fit s_list 24 = Some (Inr 0x1010)
   \<and> find_fit s_list 48 = Some (Inr 0x1080)
   \<and> find_fit s_list 408 = Some (Inr 0)"
proof -
  note a = C6_first_fit [OF s_list_ok, of 24] and b = C6_first_fit [OF s_list_ok, of 48]
    and c = C6_first_fit [OF s_list_ok, of 408]
  have l3: "length [513, 521, 527 :: nat] = 3" by simp
  from a have "list_walk s_list (length [513, 521, 527 :: nat]) (first_free s_list)
               = Some (map bptr [513, 521, 527])" by (rule conjunct1)
  then have w: "list_walk s_list 3 (first_free s_list) = Some [0x1010, 0x1050, 0x1080]"
    unfolding l3 by (simp add: bptr_vals del: list_walk.simps)
  have "GET_SIZE s_list (HDRP 0x1010) = Inr 40 \<and> GET_SIZE s_list (HDRP 0x1050) = Inr 24
        \<and> GET_SIZE s_list (HDRP 0x1080) = Inr 400 \<and> find_fit s_list 24 = Some (Inr 0x1010)
        \<and> find_fit s_list 48 = Some (Inr 0x1080) \<and> find_fit s_list 408 = Some (Inr 0)"
    using a b c by (simp add: bptr_vals bsize_list)
  then show ?thesis using w s_list_ok by simp
qed





text \<open>
  Claim C9.  \<open>realloc\<close> of a non-null address with a size greater than 0: whenever the
  fresh allocation fails, that is \<open>malloc\<close> returns \<open>NULL\<close>, the state that comes back
  is the state that went in, the whole memory and the free list head included, and
  \<open>realloc\<close> returns \<open>NULL\<close> with that same state.  This is what happens when no free
  block fits and the host cannot grow the heap by \<open>max(asize, CHUNKSIZE)\<close> bytes.
\<close>

theorem C9_realloc_failure:
  assumes "heap_ok s h bs fl" and "ptr \<noteq> 0" and "sz \<noteq> 0" and "unat sz + 15 < 2 ^ 64"
  shows "(find_fit s (adjust_size sz) = Some (Inr 0)
          \<and> \<not> unat (mem_brk s) + unat (max (adjust_size sz) CHUNKSIZE) \<le> unat (mem_max_addr s)
          \<longrightarrow> malloc s sz = Some (Inr (0, s)) \<and> realloc s ptr sz = Some (Inr (0, s)))
       \<and> (\<forall>s1. malloc s sz = Some (Inr (0, s1))
                \<longrightarrow> s1 = s \<and> realloc s ptr sz = Some (Inr (0, s)))"
proof -
  have 2: "s1 = s \<and> realloc s ptr sz = Some (Inr (0, s))"
    if m: "malloc s sz = Some (Inr (0, s1))" for s1
    using malloc_fail_same [OF assms(1,4) m] realloc_fail [OF assms(2,3) m] by simp
  have 1: "malloc s sz = Some (Inr (0, s)) \<and> realloc s ptr sz = Some (Inr (0, s))"
    if "find_fit s (adjust_size sz) = Some (Inr 0)"
      "\<not> unat (mem_brk s) + unat (max (adjust_size sz) CHUNKSIZE) \<le> unat (mem_max_addr s)"
    using malloc_extend [OF assms(1,3,4) that(1)] that(2) 2 by simp
  show ?thesis using 1 2 by blast
qed

theorem C9_realloc_failure_witness:
  "heap_ok s_full 512 [(3, True), (61, False)] [516]
   \<and> (0x1010 :: addr) \<noteq> 0 \<and> (1000 :: addr) \<noteq> 0 \<and> unat (1000 :: addr) + 15 < 2 ^ 64
   \<and> find_fit s_full (adjust_size 1000) = Some (Inr 0)
   \<and> \<not> unat (mem_brk s_full) + unat (max (adjust_size 1000) CHUNKSIZE) \<le> unat (mem_max_addr s_full)
   \<and> malloc s_full 1000 = Some (Inr (0, s_full))
   \<and> realloc s_full 0x1010 1000 = Some (Inr (0, s_full))"
proof -
  have a: "adjust_size 1000 = 1008" by (simp add: adjust_size_def)
  show ?thesis
    using C9_realloc_failure [OF s_full_ok, of "0x1010" 1000] s_full_ok find_two_none(2)
    by (simp add: a s_full_fields)
qed



end
